theory Spec2Isabelle
  imports Main "HOL-Library.AList"
begin

section \<open>Values, keys and the objects the store keeps\<close>

text \<open>
  The store of \<^verbatim>\<open>dyad\<close> (class \<^verbatim>\<open>Store\<close>, TypeScript source) keeps JavaScript values under
  string or symbol keys. Data values are compared by \<^verbatim>\<open>!==\<close>; an object value carries its
  identity (a number), the identities of the objects on its prototype chain (nearest
  first), the string its \<^verbatim>\<open>type\<close> property reads as (when \<^verbatim>\<open>'type' in x\<close> holds; interface
  \<^verbatim>\<open>Action\<close> declares it a string), its other properties, which are data, and what its
  \<^verbatim>\<open>then\<close> method does if it has one: a promise resolved with such an object follows it, and
  the method (called in a later turn) fulfils with a value, rejects with a value, or calls
  neither callback. Of the numbers, the integers and \<^verbatim>\<open>NaN\<close> are kept: the store does no
  arithmetic on the values it holds. A function object is a value of its own kind, known
  by a name: the store reads such values through the prototype chain of its dictionaries.
\<close>

datatype 'a followed = Fulfils 'a | Rejects 'a | Never

datatype jsdata =
    Undefined
  | Null
  | Bool bool
  | Num int
  | NaN
  | Str string
  | Obj nat "nat list" "string option" "(string \<times> jsdata) list" "jsdata followed option"

datatype val = Data jsdata | Function string

datatype key = KStr string | KSym nat

text \<open>
  \<^verbatim>\<open>a === b\<close>: two objects are the same when they have the same identity; other values
  when they are equal, except that \<^verbatim>\<open>NaN\<close> differs from itself.
\<close>

fun ref_of :: "val \<Rightarrow> nat option" where
  "ref_of (Data (Obj i chain t ps th)) = Some i"
| "ref_of v = None"

definition strict_eq :: "val \<Rightarrow> val \<Rightarrow> bool" where
  "strict_eq a b =
     (case ref_of a of
        Some i \<Rightarrow> ref_of b = Some i
      | None \<Rightarrow> a = b \<and> a \<noteq> Data NaN)"

text \<open>
  Errors: \<^verbatim>\<open>new Error(message)\<close>, a \<^verbatim>\<open>TypeError\<close> of the runtime, or any value that client
  code throws.
\<close>

datatype exn = Error string | TypeError string | Raised val

definition apostrophe :: string where
  "apostrophe = [CHR 0xE2, CHR 0x80, CHR 0x99]"

definition backtick :: string where
  "backtick = [CHR 0x60]"

definition reentrant_msg :: string where
  "reentrant_msg = ''Reducers can'' @ apostrophe @ ''t dispatch actions''"

definition double_next_msg :: string where
  "double_next_msg = backtick @ ''next()'' @ backtick @ '' called more than once''"

definition not_plain_msg :: string where
  "not_plain_msg = backtick @ ''action'' @ backtick @ '' is not a plain object''"

definition no_type_msg :: string where
  "no_type_msg = backtick @ ''action'' @ backtick @ '' doesn'' @ apostrophe @ ''t include a ''
     @ backtick @ ''type'' @ backtick @ '' property''"

definition direct_emit_msg :: "string \<Rightarrow> string" where
  "direct_emit_msg k = ''Can'' @ apostrophe @ ''t emit key '' @ [CHR 0x27] @ k @ [CHR 0x27]
     @ '' without setting it''"

subsection \<open>Dictionaries written as object literals\<close>

text \<open>
  \<^verbatim>\<open>_model\<close>, \<^verbatim>\<open>_prevValueByKey\<close>, \<^verbatim>\<open>_emittingByKey\<close> and \<^verbatim>\<open>_reducersByType\<close> are created as
  \<^verbatim>\<open>{}\<close>, so each inherits the properties of \<^verbatim>\<open>Object.prototype\<close>. The operator \<^verbatim>\<open>in\<close> and
  a property read follow the prototype chain; an assignment and \<^verbatim>\<open>delete\<close> act on own
  properties only. An assignment under \<^verbatim>\<open>__proto__\<close> goes to the accessor that
  \<^verbatim>\<open>Object.prototype\<close> defines and creates no own property: a value that is no object is
  ignored, an object (or \<^verbatim>\<open>null\<close>) becomes the prototype of the dictionary.
\<close>

definition Object_prototype :: "string list" where
  "Object_prototype =
    [''constructor'', ''__defineGetter__'', ''__defineSetter__'', ''hasOwnProperty'',
     ''__lookupGetter__'', ''__lookupSetter__'', ''isPrototypeOf'', ''propertyIsEnumerable'',
     ''toString'', ''valueOf'', ''__proto__'', ''toLocaleString'']"

fun inherited :: "key \<Rightarrow> bool" where
  "inherited (KStr n) = (n \<in> set Object_prototype)"
| "inherited (KSym i) = False"

text \<open>\<^verbatim>\<open>key in obj\<close>\<close>

definition has_in :: "key \<Rightarrow> (key \<rightharpoonup> 'a) \<Rightarrow> bool" where
  "has_in k m \<longleftrightarrow> inherited k \<or> m k \<noteq> None"

text \<open>
  The value \<^verbatim>\<open>{}[key]\<close> reads when \<^verbatim>\<open>key\<close> is no own property: a method of
  \<^verbatim>\<open>Object.prototype\<close>, or \<^verbatim>\<open>Object.prototype\<close> itself (object 0, whose prototype is
  \<^verbatim>\<open>null\<close>) under \<^verbatim>\<open>__proto__\<close>, or \<^verbatim>\<open>undefined\<close>.
\<close>

fun proto_read :: "key \<Rightarrow> val" where
  "proto_read (KStr n) =
     (if n = ''__proto__'' then Data (Obj 0 [] None [] None)
      else if n \<in> set Object_prototype then Function n
      else Data Undefined)"
| "proto_read (KSym i) = Data Undefined"

text \<open>\<^verbatim>\<open>obj[key]\<close>\<close>

definition member :: "(key \<rightharpoonup> val) \<Rightarrow> key \<Rightarrow> val" where
  "member m k = (case m k of Some v \<Rightarrow> v | None \<Rightarrow> proto_read k)"

text \<open>The truth value of \<^verbatim>\<open>obj[key]\<close> for a dictionary of booleans.\<close>

definition truthy_member :: "(key \<rightharpoonup> bool) \<Rightarrow> key \<Rightarrow> bool" where
  "truthy_member m k = (case m k of Some b \<Rightarrow> b | None \<Rightarrow> inherited k)"

text \<open>\<^verbatim>\<open>obj[key] = b\<close> for a dictionary of booleans.\<close>

definition assign_flag :: "key \<Rightarrow> bool \<Rightarrow> (key \<rightharpoonup> bool) \<Rightarrow> (key \<rightharpoonup> bool)" where
  "assign_flag k b m = (if k = KStr ''__proto__'' then m else m(k \<mapsto> b))"

text \<open>What the setter of \<^verbatim>\<open>__proto__\<close> takes as a prototype: an object, a function or \<^verbatim>\<open>null\<close>.\<close>

fun object_or_null :: "val \<Rightarrow> bool" where
  "object_or_null (Data (Obj i chain t ps th)) = True"
| "object_or_null (Data Null) = True"
| "object_or_null (Function n) = True"
| "object_or_null v = False"

subsection \<open>\<^verbatim>\<open>Object.keys\<close>\<close>

text \<open>
  The model dictionary is kept as an association list in the order its properties were
  created, because \<^verbatim>\<open>keys()\<close> enumerates it. \<^verbatim>\<open>Object.keys\<close> is the runtime's: it lists the
  own string keys, those that are array indices first, in ascending numeric order, then
  the others in creation order; symbol keys are not listed. An array index is the
  canonical decimal numeral of an integer below \<open>2^32 - 1\<close>.
\<close>

fun decimal :: "nat \<Rightarrow> string \<Rightarrow> nat option" where
  "decimal acc [] = Some acc"
| "decimal acc (c # cs) =
     (if 48 \<le> (of_char c :: nat) \<and> (of_char c :: nat) \<le> 57
      then decimal (10 * acc + (of_char c - 48)) cs else None)"

definition array_index :: "string \<Rightarrow> nat option" where
  "array_index s =
     (case s of
        [] \<Rightarrow> None
      | c # cs \<Rightarrow>
          if c = CHR ''0'' \<and> cs \<noteq> [] then None
          else (case decimal 0 s of
                  None \<Rightarrow> None
                | Some n \<Rightarrow> if n < 4294967295 then Some n else None))"

fun is_index :: "key \<Rightarrow> bool" where
  "is_index (KStr n) = (array_index n \<noteq> None)"
| "is_index (KSym i) = False"

fun index_of :: "key \<Rightarrow> nat" where
  "index_of (KStr n) = (case array_index n of Some i \<Rightarrow> i | None \<Rightarrow> 0)"
| "index_of (KSym i) = 0"

fun is_string :: "key \<Rightarrow> bool" where
  "is_string (KStr n) = True"
| "is_string (KSym i) = False"

definition Object_keys :: "(key \<times> 'a) list \<Rightarrow> key list" where
  "Object_keys ps =
     sort_key index_of (filter is_index (map fst ps))
       @ filter (\<lambda>k. is_string k \<and> \<not> is_index k) (map fst ps)"

section \<open>The store\<close>

text \<open>
  A reducer and a middleware are client code. A reducer \<^verbatim>\<open>(get, set, action) => void\<close> is
  a program over what it is handed: it reads with \<^verbatim>\<open>get\<close>, queues with \<^verbatim>\<open>set\<close>, may try
  \<^verbatim>\<open>store.dispatch\<close> (and see what that does), may call \<^verbatim>\<open>store.initialize\<close>, throws or
  returns. A middleware \<^verbatim>\<open>(action, next) => any\<close> calls \<^verbatim>\<open>next\<close> with an action any number of
  times and may call \<^verbatim>\<open>store.dispatch\<close>, seeing each time whether the call threw or which
  promise it returned, and then throws or returns a plain value or a promise. A promise is
  known by how it settles, if it does. An edit handed to
  \<^verbatim>\<open>set\<close> is a value that is not a function, or a function of the previous value that
  returns the next one or throws.
\<close>

datatype settle = Resolved val | Rejected exn | Unsettled

datatype outcome = Threw exn | Returned settle

datatype edit = Lit jsdata | Fn "val \<Rightarrow> exn + val"

datatype rprog =
    RDone
  | RThrow exn
  | RGet key "val \<Rightarrow> rprog"
  | RSet key edit rprog
  | RDispatch val "outcome \<Rightarrow> rprog"
  | RInitialize "(key \<times> val) list option" rprog

datatype mresult = Plain val | Promise settle

datatype mprog =
    MReturn mresult
  | MThrow exn
  | MNext val "outcome \<Rightarrow> mprog"
  | MDispatch val "outcome \<Rightarrow> mprog"

type_synonym reducer = "val \<Rightarrow> rprog"

type_synonym middleware = "val \<Rightarrow> mprog"

text \<open>
  \<^verbatim>\<open>initialize\<close> replaces \<^verbatim>\<open>_model\<close> and \<^verbatim>\<open>_prevValueByKey\<close> by new objects, while the
  callback that \<^verbatim>\<open>set\<close> queued keeps the two objects it captured. The store therefore
  holds every such pair in a table of cells and knows which cell is current; a queued job
  names its cell and its key. \<^verbatim>\<open>emitted\<close> lists the calls \<^verbatim>\<open>super.emit(key, nextValue)\<close>
  made so far: the notifications handed to the listeners of \<^verbatim>\<open>key\<close> (the event emitter
  itself is Node's). A cell also records whether the prototype of its model dictionary
  has been replaced; what the model then reads through the new prototype is not followed.
\<close>

record cell =
  c_model :: "(key \<times> val) list"
  c_prev :: "key \<rightharpoonup> val"
  c_reparented :: bool

record store =
  isDispatching :: bool
  emittingByKey :: "key \<rightharpoonup> bool"
  middleware :: "middleware list"
  reducersByType :: "key \<rightharpoonup> reducer list"
  cells :: "nat \<Rightarrow> cell"
  this_cell :: nat
  jobs :: "(nat \<times> key) list"
  emitted :: "(key \<times> val) list"

definition empty_cell :: cell where
  "empty_cell = \<lparr>c_model = [], c_prev = Map.empty, c_reparented = False\<rparr>"

text \<open>\<^verbatim>\<open>model[key] = v\<close>\<close>

definition assign_model :: "key \<Rightarrow> val \<Rightarrow> cell \<Rightarrow> cell" where
  "assign_model k v c =
     (if k = KStr ''__proto__''
      then (if object_or_null v then c\<lparr>c_reparented := True\<rparr> else c)
      else c\<lparr>c_model := AList.update k v (c_model c)\<rparr>)"

text \<open>The object \<^verbatim>\<open>new\<close> allocates, before the constructor has run.\<close>

definition blank :: store where
  "blank = \<lparr>isDispatching = False, emittingByKey = Map.empty, middleware = [],
     reducersByType = Map.empty, cells = (\<lambda>a. empty_cell), this_cell = 0, jobs = [],
     emitted = []\<rparr>"

definition model :: "store \<Rightarrow> (key \<times> val) list" where
  "model s = c_model (cells s (this_cell s))"

definition prevValueByKey :: "store \<Rightarrow> (key \<rightharpoonup> val)" where
  "prevValueByKey s = c_prev (cells s (this_cell s))"

text \<open>
  \<^verbatim>\<open>initialize(model?)\<close>: new dictionaries, no middleware, no reducers, the flag down
  (the listeners, which the event emitter keeps, are removed); then every enumerable string
  key of the argument is copied, in the order of \<^verbatim>\<open>Object.keys\<close>. Jobs already queued stay
  queued.
\<close>

definition initialize :: "(key \<times> val) list option \<Rightarrow> store \<Rightarrow> store" where
  "initialize arg s =
     (let a = Suc (this_cell s);
          seeded = (case arg of
                      None \<Rightarrow> empty_cell
                    | Some ps \<Rightarrow>
                        fold (\<lambda>k c. assign_model k (member (map_of ps) k) c) (Object_keys ps)
                          empty_cell)
      in s\<lparr>emittingByKey := Map.empty, isDispatching := False, middleware := [],
            reducersByType := Map.empty, this_cell := a,
            cells := (cells s)(a := seeded)\<rparr>)"

definition keys :: "store \<Rightarrow> key list" where
  "keys s = Object_keys (model s)"

definition get :: "store \<Rightarrow> key \<Rightarrow> val" where
  "get s k = member (map_of (model s)) k"

text \<open>
  \<^verbatim>\<open>emit(key, nextValue)\<close> refuses unless \<^verbatim>\<open>_emittingByKey[key]\<close> is truthy. (The message
  interpolates the key; a symbol cannot be converted to a string.)
\<close>

definition emit :: "key \<Rightarrow> val \<Rightarrow> store \<Rightarrow> exn option \<times> store" where
  "emit k v s =
     (if \<not> truthy_member (emittingByKey s) k
      then (Some (case k of
                    KStr n \<Rightarrow> Error (direct_emit_msg n)
                  | KSym i \<Rightarrow> TypeError ''Cannot convert a Symbol value to a string''), s)
      else (None, s\<lparr>emitted := emitted s @ [(k, v)]\<rparr>))"

text \<open>
  \<^verbatim>\<open>set(key, edit)\<close>. The snapshot is taken before the edit runs; when the edit throws the
  promise is rejected and nothing is queued. Otherwise the model is assigned at once and
  the callback is queued for the next turn. The result says which: the error that rejects
  the promise, or none.
\<close>

definition apply_edit :: "edit \<Rightarrow> val \<Rightarrow> exn + val" where
  "apply_edit e v = (case e of Fn f \<Rightarrow> f v | Lit d \<Rightarrow> Inr (Data d))"

definition set_edit :: "key \<Rightarrow> edit \<Rightarrow> store \<Rightarrow> exn option \<times> store" where
  "set_edit k e s =
     (let a = this_cell s;
          c = cells s a;
          v = member (map_of (c_model c)) k;
          c1 = (if \<not> has_in k (c_prev c) then c\<lparr>c_prev := (c_prev c)(k \<mapsto> v)\<rparr> else c)
      in case apply_edit e v of
           Inl err \<Rightarrow> (Some err, s\<lparr>cells := (cells s)(a := c1)\<rparr>)
         | Inr nv \<Rightarrow>
             (None, s\<lparr>cells := (cells s)(a := assign_model k nv c1),
                      jobs := jobs s @ [(a, k)]\<rparr>))"

text \<open>
  The queued callback: it reads the captured model, and when the key is \<^verbatim>\<open>in\<close> the
  captured snapshot dictionary it takes the snapshot, deletes it and emits on a
  difference, with the emitting flag of the key raised around the call and lowered after.
\<close>

definition run_job :: "nat \<times> key \<Rightarrow> store \<Rightarrow> store" where
  "run_job j s =
     (let a = fst j; k = snd j;
          c = cells s a;
          nextValue = member (map_of (c_model c)) k
      in if has_in k (c_prev c)
         then (let prevValue = member (c_prev c) k;
                   s1 = s\<lparr>cells := (cells s)(a := c\<lparr>c_prev := (c_prev c)(k := None)\<rparr>)\<rparr>
               in if \<not> strict_eq nextValue prevValue
                  then (let s2 = s1\<lparr>emittingByKey := assign_flag k True (emittingByKey s1)\<rparr>;
                            s3 = snd (emit k nextValue s2)
                        in s3\<lparr>emittingByKey := assign_flag k False (emittingByKey s3)\<rparr>)
                  else s1)
         else s)"

text \<open>The next turn: the queued callbacks run in the order they were queued.\<close>

definition next_turn :: "store \<Rightarrow> store" where
  "next_turn s = fold run_job (jobs s) (s\<lparr>jobs := []\<rparr>)"

section \<open>Dispatch\<close>

text \<open>
  \<^verbatim>\<open>isPlainObject(x)\<close>: an object whose prototype is \<^verbatim>\<open>null\<close>, or is the last object of
  its own prototype chain. The loop climbs the chain from the prototype of \<^verbatim>\<open>x\<close>.
\<close>

fun root_of :: "nat \<Rightarrow> nat list \<Rightarrow> nat" where
  "root_of p [] = p"
| "root_of p (q # qs) = root_of q qs"

fun isPlainObject :: "val \<Rightarrow> bool" where
  "isPlainObject (Data (Obj i chain t ps th)) =
     (case chain of [] \<Rightarrow> True | p # rest \<Rightarrow> p = root_of p rest)"
| "isPlainObject v = False"

text \<open>\<^verbatim>\<open>nextAction.type\<close>, present when \<^verbatim>\<open>'type' in nextAction\<close>.\<close>

fun type_of :: "val \<Rightarrow> string option" where
  "type_of (Data (Obj i chain t ps th)) = t"
| "type_of v = None"


fun follow :: "jsdata \<Rightarrow> settle" where
  "follow (Obj i chain t ps (Some (Fulfils d))) = follow d"
| "follow (Obj i chain t ps (Some (Rejects d))) = Rejected (Raised (Data d))"
| "follow (Obj i chain t ps (Some Never)) = Unsettled"
| "follow d = Resolved (Data d)"

fun resolve_value :: "val \<Rightarrow> settle" where
  "resolve_value (Data d) = follow d"
| "resolve_value (Function n) = Resolved (Function n)"

text \<open>
  \<^verbatim>\<open>self._reducersByType[type] || []\<close>, on which \<^verbatim>\<open>forEach\<close> is then called: an own entry is
  an array; a name that \<^verbatim>\<open>Object.prototype\<close> defines reads as a value without \<^verbatim>\<open>forEach\<close>.
\<close>

definition reducers_for :: "store \<Rightarrow> string \<Rightarrow> exn + reducer list" where
  "reducers_for s t =
     (case reducersByType s (KStr t) of
        Some rs \<Rightarrow> Inr rs
      | None \<Rightarrow>
          if inherited (KStr t) then Inl (TypeError ''reducers.forEach is not a function'')
          else Inr [])"

text \<open>
  A reducer runs against the store; \<^verbatim>\<open>disp\<close> is the store's \<^verbatim>\<open>dispatch\<close> as the reducer
  reaches it. The result is the error the reducer threw, if any; \<open>None\<close> outside says that
  a nested dispatch did not return.
\<close>

primrec exec_red ::
  "rprog \<Rightarrow> (val \<Rightarrow> store \<Rightarrow> (outcome \<times> store) option) \<Rightarrow> store
    \<Rightarrow> (exn option \<times> store) option" where
  "exec_red RDone disp s = Some (None, s)"
| "exec_red (RThrow e) disp s = Some (Some e, s)"
| "exec_red (RGet k f) disp s = exec_red (f (get s k)) disp s"
| "exec_red (RSet k e p) disp s = exec_red p disp (snd (set_edit k e s))"
| "exec_red (RDispatch a f) disp s =
     (case disp a s of
        None \<Rightarrow> None
      | Some (out, s') \<Rightarrow> exec_red (f out) disp s')"
| "exec_red (RInitialize arg p) disp s = exec_red p disp (initialize arg s)"

text \<open>
  One pass of \<^verbatim>\<open>reducers.forEach\<close>: the flag is raised, the reducer runs, and the
  \<^verbatim>\<open>finally\<close> block lowers the flag whether or not the reducer threw. An error leaves the
  loop.
\<close>

definition run_reducer ::
  "(val \<Rightarrow> store \<Rightarrow> (outcome \<times> store) option) \<Rightarrow> reducer \<Rightarrow> val \<Rightarrow> store
    \<Rightarrow> (exn option \<times> store) option" where
  "run_reducer disp r a s =
     (case exec_red (r a) disp (s\<lparr>isDispatching := True\<rparr>) of
        None \<Rightarrow> None
      | Some (x, s') \<Rightarrow> Some (x, s'\<lparr>isDispatching := False\<rparr>))"

primrec forEach_reducers ::
  "reducer list \<Rightarrow> (val \<Rightarrow> store \<Rightarrow> (outcome \<times> store) option) \<Rightarrow> val \<Rightarrow> store
    \<Rightarrow> (exn option \<times> store) option" where
  "forEach_reducers [] disp a s = Some (None, s)"
| "forEach_reducers (r # rs) disp a s =
     (case run_reducer disp r a s of
        None \<Rightarrow> None
      | Some (Some e, s') \<Rightarrow> Some (Some e, s')
      | Some (None, s') \<Rightarrow> forEach_reducers rs disp a s')"

text \<open>The step past the last middleware.\<close>

definition terminal ::
  "(val \<Rightarrow> store \<Rightarrow> (outcome \<times> store) option) \<Rightarrow> val \<Rightarrow> store
    \<Rightarrow> (outcome \<times> store) option" where
  "terminal disp a s =
     (if \<not> isPlainObject a then Some (Returned (Rejected (Error not_plain_msg)), s)
      else case type_of a of
             None \<Rightarrow> Some (Returned (Rejected (Error no_type_msg)), s)
           | Some t \<Rightarrow>
               (case reducers_for s t of
                  Inl e \<Rightarrow> Some (Threw e, s)
                | Inr rs \<Rightarrow>
                    (case forEach_reducers rs disp a s of
                       None \<Rightarrow> None
                     | Some (Some e, s') \<Rightarrow> Some (Threw e, s')
                     | Some (None, s') \<Rightarrow> Some (Returned (resolve_value a), s'))))"

text \<open>
  A middleware runs with the capability \<^verbatim>\<open>next\<close> it was handed and with the store's
  \<^verbatim>\<open>dispatch\<close>. The variable \<^verbatim>\<open>index\<close> belongs to one call of \<^verbatim>\<open>dispatch\<close>; it is threaded
  beside the store, and a nested dispatch has its own.
\<close>

primrec exec_mw ::
  "mprog \<Rightarrow> (val \<Rightarrow> int \<Rightarrow> store \<Rightarrow> (outcome \<times> int \<times> store) option)
    \<Rightarrow> (val \<Rightarrow> store \<Rightarrow> (outcome \<times> store) option) \<Rightarrow> int \<Rightarrow> store
    \<Rightarrow> ((exn + mresult) \<times> int \<times> store) option" where
  "exec_mw (MReturn r) nxt disp i s = Some (Inr r, i, s)"
| "exec_mw (MThrow e) nxt disp i s = Some (Inl e, i, s)"
| "exec_mw (MNext a k) nxt disp i s =
     (case nxt a i s of
        None \<Rightarrow> None
      | Some (out, i', s') \<Rightarrow> exec_mw (k out) nxt disp i' s')"
| "exec_mw (MDispatch a k) nxt disp i s =
     (case disp a s of
        None \<Rightarrow> None
      | Some (out, s') \<Rightarrow> exec_mw (k out) nxt disp i s')"

text \<open>\<^verbatim>\<open>Promise.resolve(x)\<close> of what a middleware returned: a promise is returned as it is.\<close>

fun promise_resolve :: "mresult \<Rightarrow> settle" where
  "promise_resolve (Plain v) = resolve_value v"
| "promise_resolve (Promise p) = p"

text \<open>
  \<^verbatim>\<open>call(nextIndex, nextAction)\<close>, by recursion on the middleware from \<^verbatim>\<open>nextIndex\<close> on. The
  capability handed to the middleware is \<^verbatim>\<open>() => call(nextIndex, nextAction)\<close>: it takes no
  parameter, so the value it is called with is not used.
\<close>

primrec call_from ::
  "middleware list \<Rightarrow> (val \<Rightarrow> store \<Rightarrow> (outcome \<times> store) option) \<Rightarrow> nat \<Rightarrow> val \<Rightarrow> int
    \<Rightarrow> store \<Rightarrow> (outcome \<times> int \<times> store) option" where
  "call_from [] disp nextIndex nextAction index s =
     (if int nextIndex \<le> index
      then Some (Returned (Rejected (Error double_next_msg)), index, s)
      else (case terminal disp nextAction s of
              None \<Rightarrow> None
            | Some (out, s') \<Rightarrow> Some (out, int nextIndex, s')))"
| "call_from (nextMiddleware # rest) disp nextIndex nextAction index s =
     (if int nextIndex \<le> index
      then Some (Returned (Rejected (Error double_next_msg)), index, s)
      else (case exec_mw (nextMiddleware nextAction)
                   (\<lambda>ignored. call_from rest disp (Suc nextIndex) nextAction) disp
                   (int nextIndex) s of
              None \<Rightarrow> None
            | Some (Inl error, i', s') \<Rightarrow> Some (Returned (Rejected error), i', s')
            | Some (Inr r, i', s') \<Rightarrow> Some (Returned (promise_resolve r), i', s')))"

definition call ::
  "middleware list \<Rightarrow> (val \<Rightarrow> store \<Rightarrow> (outcome \<times> store) option) \<Rightarrow> nat \<Rightarrow> val \<Rightarrow> int
    \<Rightarrow> store \<Rightarrow> (outcome \<times> int \<times> store) option" where
  "call ms disp nextIndex nextAction index s =
     call_from (drop nextIndex ms) disp nextIndex nextAction index s"

text \<open>
  \<^verbatim>\<open>dispatch(action)\<close>. The guard comes first. The fuel bounds how deep dispatches may
  nest (the program of a middleware or of a reducer may hold \<^verbatim>\<open>store.dispatch\<close> calls);
  \<open>None\<close> is a dispatch that ran out of it.
\<close>

primrec dispatch :: "nat \<Rightarrow> val \<Rightarrow> store \<Rightarrow> (outcome \<times> store) option" where
  "dispatch 0 action s =
     (if isDispatching s then Some (Threw (Error reentrant_msg), s) else None)"
| "dispatch (Suc fuel) action s =
     (if isDispatching s then Some (Threw (Error reentrant_msg), s)
      else (case call (middleware s) (dispatch fuel) 0 action (- 1) s of
              None \<Rightarrow> None
            | Some (out, i, s') \<Rightarrow> Some (out, s')))"

text \<open>
  \<^verbatim>\<open>bind(actions)\<close> appends each reducer to the list of its type, in the order of
  \<^verbatim>\<open>Object.keys(actions)\<close>; \<^verbatim>\<open>push\<close> on a value read from \<^verbatim>\<open>Object.prototype\<close> is a
  \<^verbatim>\<open>TypeError\<close>. \<^verbatim>\<open>use(middleware)\<close> appends to the chain.
\<close>

fun bind_each :: "key list \<Rightarrow> (key \<rightharpoonup> reducer) \<Rightarrow> store \<Rightarrow> exn option \<times> store" where
  "bind_each [] acts s = (None, s)"
| "bind_each (t # ts) acts s =
     (case acts t of
        None \<Rightarrow> bind_each ts acts s
      | Some r \<Rightarrow>
          (case reducersByType s t of
             Some rs \<Rightarrow> bind_each ts acts (s\<lparr>reducersByType := (reducersByType s)(t \<mapsto> rs @ [r])\<rparr>)
           | None \<Rightarrow>
               if inherited t
               then (Some (TypeError ''this._reducersByType[type].push is not a function''), s)
               else bind_each ts acts (s\<lparr>reducersByType := (reducersByType s)(t \<mapsto> [r])\<rparr>)))"

definition bind :: "(key \<times> reducer) list \<Rightarrow> store \<Rightarrow> exn option \<times> store" where
  "bind actions s = bind_each (Object_keys actions) (map_of actions) s"

definition use :: "middleware \<Rightarrow> store \<Rightarrow> store" where
  "use m s = s\<lparr>middleware := middleware s @ [m]\<rparr>"

text \<open>The middleware \<^verbatim>\<open>(action, next) => next(t(action))\<close>.\<close>

definition pass_through :: "(val \<Rightarrow> val) \<Rightarrow> middleware" where
  "pass_through t action =
     MNext (t action) (\<lambda>out. case out of Threw e \<Rightarrow> MThrow e | Returned p \<Rightarrow> MReturn (Promise p))"

section \<open>The module and its instance\<close>

text \<open>
  The module declares \<^verbatim>\<open>store = new Store()\<close> after the class; the constructor returns
  \<^verbatim>\<open>store\<close> when it is set and initializes the new object otherwise. Store objects live
  in a table; a reference is a position in it. (This is the constructor of the TypeScript
  source and of the first compiled module; the second compiled module in \<^verbatim>\<open>dyad.js\<close> has
  a constructor without the test of \<^verbatim>\<open>store\<close>.)
\<close>

record module =
  instances :: "store list"
  store_var :: "nat option"

definition new_Store :: "module \<Rightarrow> nat \<times> module" where
  "new_Store m =
     (case store_var m of
        Some a \<Rightarrow> (a, m)
      | None \<Rightarrow> (length (instances m), m\<lparr>instances := instances m @ [initialize None blank]\<rparr>))"

definition module_loaded :: module where
  "module_loaded =
     (case new_Store \<lparr>instances = [], store_var = None\<rparr> of
        (a, m) \<Rightarrow> m\<lparr>store_var := Some a\<rparr>)"

definition getInstance :: "module \<Rightarrow> nat option" where
  "getInstance m = store_var m"

text \<open>A method called through a reference acts on the object the reference names.\<close>

definition through :: "nat \<Rightarrow> (store \<Rightarrow> store) \<Rightarrow> module \<Rightarrow> module" where
  "through a f m = m\<lparr>instances := (instances m)[a := f (instances m ! a)]\<rparr>"

section \<open>Example values and stores\<close>

text \<open>
  \<^verbatim>\<open>{type: t}\<close>, an object literal with identity \<open>i\<close>: its prototype is \<^verbatim>\<open>Object.prototype\<close>
  (object 0). \<^verbatim>\<open>new Date()\<close>: its prototype is \<^verbatim>\<open>Date.prototype\<close> (object 1), whose
  prototype is \<^verbatim>\<open>Object.prototype\<close>.
\<close>

definition an_action :: "string \<Rightarrow> nat \<Rightarrow> val" where
  "an_action t i = Data (Obj i [0] (Some t) [] None)"

definition a_date :: val where
  "a_date = Data (Obj 9 [1, 0] None [] None)"

definition new_store :: store where
  "new_store = initialize None blank"

text \<open>
  Reducers: one calls \<^verbatim>\<open>set(k, d)\<close>, one throws, one tries \<^verbatim>\<open>store.dispatch\<close> in a
  \<^verbatim>\<open>try\<close> block and stores the message it caught.
\<close>

definition setting :: "key \<Rightarrow> jsdata \<Rightarrow> reducer" where
  "setting k d a = RSet k (Lit d) RDone"

definition throwing :: "exn \<Rightarrow> reducer" where
  "throwing e a = RThrow e"

definition probing :: reducer where
  "probing a =
     RDispatch a (\<lambda>out. case out of
                          Threw (Error m) \<Rightarrow> RSet (KStr ''caught'') (Lit (Str m)) RDone
                        | Threw e \<Rightarrow> RDone
                        | Returned p \<Rightarrow> RDone)"

definition probe_store :: store where
  "probe_store = snd (bind [(KStr ''TYPE'', probing)] new_store)"

text \<open>
  A reducer that calls \<^verbatim>\<open>store.initialize()\<close> and then \<^verbatim>\<open>store.dispatch(action)\<close> in a \<^verbatim>\<open>try\<close>
  block, and stores under \<^verbatim>\<open>nested\<close> what the call did: the message it caught, or
  \<^verbatim>\<open>'returned'\<close>.
\<close>

definition reopening :: reducer where
  "reopening a =
     RInitialize None
       (RDispatch a (\<lambda>out. case out of
                            Threw (Error m) \<Rightarrow> RSet (KStr ''nested'') (Lit (Str m)) RDone
                          | Threw e \<Rightarrow> RDone
                          | Returned p \<Rightarrow> RSet (KStr ''nested'') (Lit (Str ''returned'')) RDone))"

definition reopen_store :: store where
  "reopen_store = snd (bind [(KStr ''TYPE'', reopening)] new_store)"

definition three_reducers :: store where
  "three_reducers =
     snd (bind [(KStr ''T'', setting (KStr ''x'') (Num 2))]
       (snd (bind [(KStr ''T'', throwing (Raised (Data (Str ''boom''))))]
         (snd (bind [(KStr ''T'', setting (KStr ''x'') (Num 1))] new_store)))))"

text \<open>
  \<^verbatim>\<open>initialize({counter: 0})\<close>, and edits of a counter that stay within the integers a number
  holds exactly:
  \<^verbatim>\<open>v => Number.isSafeInteger(v) && Number.isSafeInteger(v + 1) ? v + 1 : NaN\<close>, the same
  with \<^verbatim>\<open>v - 1\<close>, and an edit that throws.
\<close>

definition safe_integer :: "int \<Rightarrow> bool" where
  "safe_integer n \<longleftrightarrow> - 9007199254740991 \<le> n \<and> n \<le> 9007199254740991"

definition step_by :: "int \<Rightarrow> val \<Rightarrow> exn + val" where
  "step_by d v =
     (case v of
        Data (Num n) \<Rightarrow>
          if safe_integer n \<and> safe_integer (n + d) then Inr (Data (Num (n + d)))
          else Inr (Data NaN)
      | _ \<Rightarrow> Inr (Data NaN))"

definition counter_store :: store where
  "counter_store = initialize (Some [(KStr ''counter'', Data (Num 0))]) blank"

definition increment :: edit where
  "increment = Fn (step_by 1)"

definition decrement :: edit where
  "decrement = Fn (step_by (- 1))"

definition raising :: "exn \<Rightarrow> val \<Rightarrow> exn + val" where
  "raising e v = Inl e"

text \<open>
  Middleware: one renames the action it hands on, one calls \<^verbatim>\<open>next\<close> and returns nothing,
  one returns without calling \<^verbatim>\<open>next\<close>, one returns the action it was given without
  calling \<^verbatim>\<open>next\<close>, one calls \<^verbatim>\<open>next\<close> twice and returns the second promise.
\<close>

definition relabel_store :: store where
  "relabel_store =
     use (pass_through (\<lambda>a. an_action ''B'' 2))
       (snd (bind [(KStr ''A'', setting (KStr ''ran'') (Str ''A'')),
                   (KStr ''B'', setting (KStr ''ran'') (Str ''B''))] new_store))"

definition logging :: middleware where
  "logging a = MNext a (\<lambda>out. MReturn (Plain (Data Undefined)))"

definition short_circuit :: middleware where
  "short_circuit a = MReturn (Plain (Data Undefined))"

definition echo :: middleware where
  "echo a = MReturn (Plain a)"

definition twice :: middleware where
  "twice a =
     MNext a (\<lambda>first. MNext a (\<lambda>second. case second of
                                          Threw e \<Rightarrow> MThrow e
                                        | Returned p \<Rightarrow> MReturn (Promise p)))"

text \<open>
  The thunk middleware of the tests,
  \<^verbatim>\<open>(action, next) => typeof action === 'function' ? action(store) : next(action)\<close>, for the
  function the test dispatches: \<^verbatim>\<open>(store) => { store.dispatch({type: 'X'}) }\<close>, which returns
  nothing. The store of that test binds to \<^verbatim>\<open>X\<close> a reducer that calls \<^verbatim>\<open>set('x', 1)\<close>.
\<close>

definition thunk :: middleware where
  "thunk a =
     (case a of
        Function n \<Rightarrow>
          MDispatch (an_action ''X'' 1)
            (\<lambda>out. case out of
                     Threw e \<Rightarrow> MThrow e
                   | Returned p \<Rightarrow> MReturn (Plain (Data Undefined)))
      | Data d \<Rightarrow>
          MNext a (\<lambda>out. case out of Threw e \<Rightarrow> MThrow e | Returned p \<Rightarrow> MReturn (Promise p)))"

definition thunk_store :: store where
  "thunk_store = use thunk (snd (bind [(KStr ''X'', setting (KStr ''x'') (Num 1))] new_store))"

text \<open>
  \<^verbatim>\<open>{type: 'A', then: (resolve) => resolve(7)}\<close>, a plain action with a \<^verbatim>\<open>then\<close> method.
\<close>

definition thenable_action :: val where
  "thenable_action = Data (Obj 4 [0] (Some ''A'') [] (Some (Fulfils (Num 7))))"

text \<open>The same middleware program with \<open>g\<close> applied to every action it hands to \<^verbatim>\<open>next\<close>.\<close>

primrec with_args :: "(val \<Rightarrow> val) \<Rightarrow> mprog \<Rightarrow> mprog" where
  "with_args g (MReturn r) = MReturn r"
| "with_args g (MThrow e) = MThrow e"
| "with_args g (MNext a k) = MNext (g a) (\<lambda>out. with_args g (k out))"
| "with_args g (MDispatch a k) = MDispatch a (\<lambda>out. with_args g (k out))"

section \<open>Notions used in the statements\<close>

text \<open>A \<^verbatim>\<open>dispatch\<close> that always throws the reentrancy error and changes nothing.\<close>

definition refusing :: "val \<Rightarrow> store \<Rightarrow> (outcome \<times> store) option" where
  "refusing a s = Some (Threw (Error reentrant_msg), s)"

text \<open>
  What \<^verbatim>\<open>dispatch\<close> does behind its guard: the call of the middleware chain, from index 0
  with the index variable at -1.
\<close>

primrec past_guard :: "nat \<Rightarrow> val \<Rightarrow> store \<Rightarrow> (outcome \<times> store) option" where
  "past_guard 0 action s = None"
| "past_guard (Suc fuel) action s =
     (case call (middleware s) (dispatch fuel) 0 action (- 1) s of
        None \<Rightarrow> None
      | Some (out, i, s') \<Rightarrow> Some (out, s'))"

text \<open>
  A reducer's program that holds no call of \<^verbatim>\<open>store.initialize\<close>. A middleware's program
  that calls \<^verbatim>\<open>store.dispatch\<close> only with actions of a rank below a bound. A store is ranked
  when no reducer of it calls \<^verbatim>\<open>store.initialize\<close> and every middleware of it, given an
  action, dispatches only actions of a lower rank: then dispatches do not nest without end.
  (With the rank 0 for every action, no middleware calls \<^verbatim>\<open>store.dispatch\<close>.)
\<close>

primrec never_initializes :: "rprog \<Rightarrow> bool" where
  "never_initializes RDone = True"
| "never_initializes (RThrow e) = True"
| "never_initializes (RGet k f) = (\<forall>v. never_initializes (f v))"
| "never_initializes (RSet k e p) = never_initializes p"
| "never_initializes (RDispatch a f) = (\<forall>out. never_initializes (f out))"
| "never_initializes (RInitialize arg p) = False"

primrec dispatches_below :: "(val \<Rightarrow> nat) \<Rightarrow> nat \<Rightarrow> mprog \<Rightarrow> bool" where
  "dispatches_below rank b (MReturn r) = True"
| "dispatches_below rank b (MThrow e) = True"
| "dispatches_below rank b (MNext a k) = (\<forall>out. dispatches_below rank b (k out))"
| "dispatches_below rank b (MDispatch a k) =
     (rank a < b \<and> (\<forall>out. dispatches_below rank b (k out)))"

definition ranked :: "(val \<Rightarrow> nat) \<Rightarrow> store \<Rightarrow> bool" where
  "ranked rank s \<longleftrightarrow>
     (\<forall>m \<in> set (middleware s). \<forall>a. dispatches_below rank (rank a) (m a))
     \<and> (\<forall>t rs. reducersByType s t = Some rs \<longrightarrow> (\<forall>r \<in> set rs. \<forall>a. never_initializes (r a)))"

text \<open>A function ranks above the objects: the rank that fits the thunk middleware.\<close>

fun thunk_rank :: "val \<Rightarrow> nat" where
  "thunk_rank (Function n) = 1"
| "thunk_rank (Data d) = 0"

text \<open>The prototype of the current model dictionary has been replaced.\<close>

definition reparented :: "store \<Rightarrow> bool" where
  "reparented s = c_reparented (cells s (this_cell s))"

text \<open>A \<^verbatim>\<open>next\<close> that always returns the rejected promise and changes nothing.\<close>

definition rejecting :: "val \<Rightarrow> int \<Rightarrow> store \<Rightarrow> (outcome \<times> int \<times> store) option" where
  "rejecting a i s = Some (Returned (Rejected (Error double_next_msg)), i, s)"

text \<open>Calls of \<^verbatim>\<open>set\<close> made one after the other, their promises left alone.\<close>

definition set_all :: "(key \<times> edit) list \<Rightarrow> store \<Rightarrow> store" where
  "set_all ops s = fold (\<lambda>op t. snd (set_edit (fst op) (snd op) t)) ops s"

text \<open>
  Every job queued on the current dictionaries still has its snapshot. \<^verbatim>\<open>set\<close> keeps this
  so: it queues a job only behind a snapshot, and snapshots go only when jobs run.
\<close>

definition snapshotted :: "store \<Rightarrow> bool" where
  "snapshotted s \<longleftrightarrow>
     list_all (\<lambda>j. fst j = this_cell s \<longrightarrow> has_in (snd j) (prevValueByKey s)) (jobs s)"

text \<open>
  The start of a turn: nothing is queued, and a snapshot left behind (by a \<^verbatim>\<open>set\<close> whose
  edit threw) is the value the model holds.
\<close>

definition turn_start :: "store \<Rightarrow> bool" where
  "turn_start s \<longleftrightarrow>
     jobs s = [] \<and> (\<forall>k. prevValueByKey s k = None \<or> prevValueByKey s k = Some (get s k))"

text \<open>The store with the snapshot of \<open>k\<close> taken: \<^verbatim>\<open>prevValueByKey[key] = value\<close>.\<close>

definition with_snapshot :: "key \<Rightarrow> store \<Rightarrow> store" where
  "with_snapshot k s =
     s\<lparr>cells := (cells s)(this_cell s :=
           (cells s (this_cell s))\<lparr>c_prev := (prevValueByKey s)(k \<mapsto> get s k)\<rparr>)\<rparr>"

text \<open>
  The store remembers \<open>v\<close> as the value \<open>k\<close> had when the turn began: the snapshot of \<open>k\<close> is
  \<open>v\<close>, or no snapshot is taken yet, the model still holds \<open>v\<close> and no job for \<open>k\<close> is
  queued.
\<close>

definition remembers :: "key \<Rightarrow> val \<Rightarrow> store \<Rightarrow> bool" where
  "remembers k v s \<longleftrightarrow>
     prevValueByKey s k = Some v
     \<or> (prevValueByKey s k = None \<and> get s k = v \<and> (this_cell s, k) \<notin> set (jobs s))"

text \<open>The notifications for one key.\<close>

definition emitted_for :: "key \<Rightarrow> store \<Rightarrow> val list" where
  "emitted_for k s = map snd (filter (\<lambda>e. fst e = k) (emitted s))"

section \<open>Properties\<close>

subsection \<open>Keys and instances\<close>

lemma is_index_is_string: "is_index k \<Longrightarrow> is_string k"
  by (cases k) simp_all

lemma length_string_keys:
  "length (filter is_string ks)
     = length (filter is_index ks) + length (filter (\<lambda>k. is_string k \<and> \<not> is_index k) ks)"
  by (induction ks) (auto dest: is_index_is_string)

text \<open>
  The model holds each key once: \<^verbatim>\<open>initialize\<close> starts from an empty dictionary, and an
  assignment adds a key only when the dictionary does not have it. So \<^verbatim>\<open>keys()\<close> lists no key
  twice.
\<close>

lemma assign_model_distinct:
  "distinct (map fst (c_model c)) \<Longrightarrow> distinct (map fst (c_model (assign_model k v c)))"
  by (simp add: assign_model_def distinct_update)

lemma fold_assign_model_distinct:
  "distinct (map fst (c_model c)) \<Longrightarrow>
   distinct (map fst (c_model (fold (\<lambda>k c. assign_model k (f k) c) ks c)))"
  by (induction ks arbitrary: c) (simp_all add: assign_model_distinct)

lemma initialize_distinct: "distinct (map fst (model (initialize arg s)))"
  by (cases arg)
     (simp_all add: initialize_def Let_def model_def empty_cell_def fold_assign_model_distinct)

lemma set_edit_distinct:
  "distinct (map fst (model s)) \<Longrightarrow> distinct (map fst (model (snd (set_edit k e s))))"
  by (simp add: set_edit_def Let_def model_def assign_model_distinct split: sum.splits)

lemma keys_distinct: "distinct (map fst (model s)) \<Longrightarrow> distinct (keys s)"
proof -
  assume d: "distinct (map fst (model s))"
  have "set (filter is_index (map fst (model s)))
          \<inter> set (filter (\<lambda>k. is_string k \<and> \<not> is_index k) (map fst (model s))) = {}"
    by auto
  with d show ?thesis
    by (simp add: keys_def Object_keys_def)
qed

text \<open>
  Claim C9, as the code has it: \<^verbatim>\<open>keys()\<close> lists exactly the string keys of the model (a
  symbol key is not listed), each once; the array indices come first, in ascending numeric
  order, and the other keys follow in the order they were created.
\<close>

theorem keys_lists_string_keys:
  "set (keys s) = {k \<in> set (map fst (model s)). is_string k}
   \<and> length (keys s) = length (filter is_string (map fst (model s)))
   \<and> keys s = filter is_index (keys s) @ filter (\<lambda>k. \<not> is_index k) (keys s)
   \<and> sorted (map index_of (filter is_index (keys s)))
   \<and> filter (\<lambda>k. \<not> is_index k) (keys s)
       = filter (\<lambda>k. is_string k \<and> \<not> is_index k) (map fst (model s))"
proof -
  let ?ks = "map fst (model s)"
  let ?A = "sort_key index_of (filter is_index ?ks)"
  let ?B = "filter (\<lambda>k. is_string k \<and> \<not> is_index k) ?ks"
  have k: "keys s = ?A @ ?B"
    by (simp add: keys_def Object_keys_def)
  have fa: "filter is_index ?A = ?A"
    by (rule filter_True) simp
  have fb: "filter is_index ?B = []"
    by (simp add: filter_empty_conv)
  have na: "filter (\<lambda>k. \<not> is_index k) ?A = []"
    by (simp add: filter_empty_conv)
  have nb: "filter (\<lambda>k. \<not> is_index k) ?B = ?B"
    by (rule filter_True) simp
  have c1: "set (keys s) = {k \<in> set ?ks. is_string k}"
    unfolding k using is_index_is_string by auto
  have c2: "length (keys s) = length (filter is_string ?ks)"
    unfolding k using length_string_keys [of ?ks] by simp
  have c3: "keys s = filter is_index (keys s) @ filter (\<lambda>k. \<not> is_index k) (keys s)"
    unfolding k filter_append fa fb na nb by simp
  have c4: "sorted (map index_of (filter is_index (keys s)))"
    unfolding k filter_append fa fb by simp
  have c5: "filter (\<lambda>k. \<not> is_index k) (keys s) = ?B"
    unfolding k filter_append na nb by simp
  from c1 c2 c3 c4 c5 show ?thesis by blast
qed

text \<open>
  Claim C9 as stated fails: after \<^verbatim>\<open>set('b', 1)\<close> and \<^verbatim>\<open>set('1', 2)\<close> on a new store the
  model holds \<^verbatim>\<open>b\<close> before \<^verbatim>\<open>1\<close>, and \<^verbatim>\<open>keys()\<close> lists \<^verbatim>\<open>1\<close> before \<^verbatim>\<open>b\<close>.
\<close>

theorem keys_not_insertion_order:
  "keys (snd (set_edit (KStr ''1'') (Lit (Num 2))
          (snd (set_edit (KStr ''b'') (Lit (Num 1)) (initialize None blank)))))
     = [KStr ''1'', KStr ''b'']
   \<and> map fst (model (snd (set_edit (KStr ''1'') (Lit (Num 2))
          (snd (set_edit (KStr ''b'') (Lit (Num 1)) (initialize None blank))))))
     = [KStr ''b'', KStr ''1'']"
  by (simp add: keys_def model_def set_edit_def initialize_def blank_def empty_cell_def
      Let_def has_in_def Object_prototype_def apply_edit_def Object_keys_def array_index_def
      member_def assign_model_def)

text \<open>
  Claim C8, as the code has it: once the module has set \<^verbatim>\<open>store\<close>, every construction
  returns that one instance, the one \<^verbatim>\<open>getInstance\<close> returns, and allocates no store.
\<close>

theorem new_Store_returns_the_instance:
  "store_var m = Some a \<Longrightarrow> new_Store m = (a, m) \<and> getInstance m = Some a"
  by (simp add: new_Store_def getInstance_def)

text \<open>The loaded module holds its instance at reference 0.\<close>

theorem new_Store_returns_the_instance_witness:
  "store_var module_loaded = Some 0
   \<and> new_Store module_loaded = (0, module_loaded) \<and> getInstance module_loaded = Some 0"
proof -
  have h: "store_var module_loaded = Some 0"
    by (simp add: module_loaded_def new_Store_def)
  from new_Store_returns_the_instance [OF h] h show ?thesis by simp
qed

text \<open>
  Claim C8 as stated fails: two constructions after the module has loaded give the same
  reference, and \<^verbatim>\<open>initialize({x: 1})\<close> through the first changes what \<^verbatim>\<open>get('x')\<close> reads
  through the second.
\<close>

theorem two_constructions_share_state:
  "fst (new_Store module_loaded) = fst (new_Store (snd (new_Store module_loaded)))
   \<and> get (instances (snd (new_Store (snd (new_Store module_loaded)))) ! 0) (KStr ''x'')
       = Data Undefined
   \<and> get (instances
            (through (fst (new_Store module_loaded))
               (initialize (Some [(KStr ''x'', Data (Num 1))]))
               (snd (new_Store (snd (new_Store module_loaded)))))
          ! fst (new_Store (snd (new_Store module_loaded)))) (KStr ''x'')
       = Data (Num 1)"
  by (simp add: module_loaded_def new_Store_def through_def get_def model_def initialize_def
      blank_def empty_cell_def Let_def member_def Object_keys_def array_index_def
      Object_prototype_def assign_model_def)

subsection \<open>Dispatch returns on a ranked store\<close>

lemma set_edit_flag [simp]: "isDispatching (snd (set_edit k e s)) = isDispatching s"
  by (simp add: set_edit_def Let_def split: sum.splits)

lemma set_edit_code [simp]:
  "middleware (snd (set_edit k e s)) = middleware s"
  "reducersByType (snd (set_edit k e s)) = reducersByType s"
  by (simp_all add: set_edit_def Let_def split: sum.splits)

lemma dispatch_refuses: "isDispatching s \<Longrightarrow> dispatch fuel a s = refusing a s"
  by (cases fuel) (simp_all add: refusing_def)

lemma dispatch_past_guard: "\<not> isDispatching s \<Longrightarrow> dispatch fuel a s = past_guard fuel a s"
  by (cases fuel) simp_all

lemma exec_red_refusing:
  "never_initializes p \<Longrightarrow> isDispatching s \<Longrightarrow>
   exec_red p (dispatch fuel) s = exec_red p refusing s"
proof (induction p arbitrary: s)
  case (RDispatch a f)
  have d: "dispatch fuel a s = Some (Threw (Error reentrant_msg), s)"
    using RDispatch.prems by (simp add: dispatch_refuses refusing_def)
  have r: "refusing a s = Some (Threw (Error reentrant_msg), s)"
    by (simp add: refusing_def)
  have "exec_red (f (Threw (Error reentrant_msg))) (dispatch fuel) s
          = exec_red (f (Threw (Error reentrant_msg))) refusing s"
    by (rule RDispatch.IH) (use RDispatch.prems in simp_all)
  then show ?case
    by (simp only: exec_red.simps d r option.case prod.case)
qed simp_all

lemma exec_red_total:
  "never_initializes p \<Longrightarrow> isDispatching s \<Longrightarrow>
   \<exists>x s'. exec_red p refusing s = Some (x, s') \<and> isDispatching s'
     \<and> middleware s' = middleware s \<and> reducersByType s' = reducersByType s"
proof (induction p arbitrary: s)
  case (RDispatch a f)
  have r: "refusing a s = Some (Threw (Error reentrant_msg), s)"
    by (simp add: refusing_def)
  have "\<exists>x s'. exec_red (f (Threw (Error reentrant_msg))) refusing s = Some (x, s')
           \<and> isDispatching s'
           \<and> middleware s' = middleware s \<and> reducersByType s' = reducersByType s"
    by (rule RDispatch.IH) (use RDispatch.prems in simp_all)
  then show ?case
    by (simp only: exec_red.simps r option.case prod.case)
next
  case (RSet k e p)
  have "\<exists>x s'. exec_red p refusing (snd (set_edit k e s)) = Some (x, s') \<and> isDispatching s'
     \<and> middleware s' = middleware (snd (set_edit k e s))
     \<and> reducersByType s' = reducersByType (snd (set_edit k e s))"
    by (rule RSet.IH) (use RSet.prems in simp_all)
  then show ?case by simp
qed simp_all

lemma run_reducer_total:
  assumes "never_initializes (r a)"
  shows "\<exists>x s'. run_reducer (dispatch fuel) r a s = Some (x, s') \<and> \<not> isDispatching s'
     \<and> middleware s' = middleware s \<and> reducersByType s' = reducersByType s"
proof -
  have f: "isDispatching (s\<lparr>isDispatching := True\<rparr>)" by simp
  from exec_red_total [OF assms f] obtain x s' where
    "exec_red (r a) refusing (s\<lparr>isDispatching := True\<rparr>) = Some (x, s')"
    "middleware s' = middleware s" "reducersByType s' = reducersByType s" by auto
  then show ?thesis
    by (simp add: run_reducer_def exec_red_refusing [OF assms f])
qed

lemma forEach_reducers_total:
  "\<forall>r \<in> set rs. \<forall>a. never_initializes (r a) \<Longrightarrow> \<not> isDispatching s \<Longrightarrow>
   \<exists>x s'. forEach_reducers rs (dispatch fuel) a s = Some (x, s') \<and> \<not> isDispatching s'
     \<and> middleware s' = middleware s \<and> reducersByType s' = reducersByType s"
proof (induction rs arbitrary: s)
  case Nil
  then show ?case by simp
next
  case (Cons r rs)
  have "never_initializes (r a)" using Cons.prems by simp
  from run_reducer_total [where r = r and a = a and fuel = fuel and s = s, OF this] obtain x s1 where
    r: "run_reducer (dispatch fuel) r a s = Some (x, s1)" "\<not> isDispatching s1"
       "middleware s1 = middleware s" "reducersByType s1 = reducersByType s"
    by blast
  show ?case
  proof (cases x)
    case None
    have "\<exists>x s'. forEach_reducers rs (dispatch fuel) a s1 = Some (x, s') \<and> \<not> isDispatching s'
       \<and> middleware s' = middleware s1 \<and> reducersByType s' = reducersByType s1"
      by (rule Cons.IH) (use Cons.prems r in simp_all)
    with r None show ?thesis by simp
  next
    case (Some e)
    with r show ?thesis by simp
  qed
qed

lemma reducers_for_ranked:
  "ranked rank s \<Longrightarrow> reducers_for s t = Inr rs \<Longrightarrow> \<forall>r \<in> set rs. \<forall>a. never_initializes (r a)"
  by (auto simp: ranked_def reducers_for_def split: option.splits if_splits)

lemma terminal_total:
  assumes t: "ranked rank s" and n: "\<not> isDispatching s"
  shows "\<exists>out s'. terminal (dispatch fuel) a s = Some (out, s') \<and> \<not> isDispatching s'
     \<and> middleware s' = middleware s \<and> reducersByType s' = reducersByType s"
proof (cases "isPlainObject a")
  case False
  with n show ?thesis by (simp add: terminal_def)
next
  case True
  show ?thesis
  proof (cases "type_of a")
    case None
    with True n show ?thesis by (simp add: terminal_def)
  next
    case (Some ty)
    show ?thesis
    proof (cases "reducers_for s ty")
      case (Inl e)
      with True Some n show ?thesis by (simp add: terminal_def)
    next
      case (Inr rs)
      from forEach_reducers_total [OF reducers_for_ranked [OF t Inr] n, of fuel a] obtain x s' where
        "forEach_reducers rs (dispatch fuel) a s = Some (x, s')" "\<not> isDispatching s'"
        "middleware s' = middleware s" "reducersByType s' = reducersByType s" by blast
      with True Some Inr show ?thesis by (cases x) (simp_all add: terminal_def)
    qed
  qed
qed

lemma ranked_same:
  "ranked rank s \<Longrightarrow> middleware s' = middleware s \<Longrightarrow> reducersByType s' = reducersByType s
   \<Longrightarrow> ranked rank s'"
  by (simp add: ranked_def)

lemma exec_mw_total:
  assumes nxt: "\<And>a i s. ranked rank s \<and> \<not> isDispatching s \<Longrightarrow>
            \<exists>out i' s'. nxt a i s = Some (out, i', s') \<and> ranked rank s' \<and> \<not> isDispatching s'"
    and disp: "\<And>a s. rank a < b \<Longrightarrow> ranked rank s \<and> \<not> isDispatching s \<Longrightarrow>
            \<exists>out s'. disp a s = Some (out, s') \<and> ranked rank s' \<and> \<not> isDispatching s'"
  shows "dispatches_below rank b p \<Longrightarrow> ranked rank s \<and> \<not> isDispatching s \<Longrightarrow>
         \<exists>r i' s'. exec_mw p nxt disp i s = Some (r, i', s')
            \<and> ranked rank s' \<and> \<not> isDispatching s'"
proof (induction p arbitrary: i s)
  case (MNext a k)
  from nxt [OF MNext.prems(2), of a i] obtain out i1 s1 where
    n: "nxt a i s = Some (out, i1, s1)" "ranked rank s1 \<and> \<not> isDispatching s1" by blast
  have "\<exists>r i' s'. exec_mw (k out) nxt disp i1 s1 = Some (r, i', s')
          \<and> ranked rank s' \<and> \<not> isDispatching s'"
    by (rule MNext.IH) (use MNext.prems n in simp_all)
  with n show ?case by simp
next
  case (MDispatch a k)
  have "rank a < b" using MDispatch.prems(1) by simp
  from disp [OF this MDispatch.prems(2)] obtain out s1 where
    n: "disp a s = Some (out, s1)" "ranked rank s1 \<and> \<not> isDispatching s1" by blast
  have "\<exists>r i' s'. exec_mw (k out) nxt disp i s1 = Some (r, i', s')
          \<and> ranked rank s' \<and> \<not> isDispatching s'"
    by (rule MDispatch.IH) (use MDispatch.prems n in simp_all)
  with n show ?case by simp
qed simp_all

lemma call_from_total:
  assumes disp: "\<And>b s. rank b < rank a \<Longrightarrow> ranked rank s \<and> \<not> isDispatching s \<Longrightarrow>
            \<exists>out s'. dispatch fuel b s = Some (out, s') \<and> ranked rank s' \<and> \<not> isDispatching s'"
  shows "\<forall>m \<in> set ms. dispatches_below rank (rank a) (m a) \<Longrightarrow>
   ranked rank s \<and> \<not> isDispatching s \<Longrightarrow>
   \<exists>out i' s'. call_from ms (dispatch fuel) n a i s = Some (out, i', s')
      \<and> ranked rank s' \<and> \<not> isDispatching s'"
proof (induction ms arbitrary: n i s)
  case Nil
  from Nil.prems have t: "ranked rank s" and f: "\<not> isDispatching s" by simp_all
  from terminal_total [OF t f, of fuel a] obtain out s' where
    "terminal (dispatch fuel) a s = Some (out, s')" "\<not> isDispatching s'"
    "middleware s' = middleware s" "reducersByType s' = reducersByType s" by blast
  with t f ranked_same [OF t, of s'] show ?case by auto
next
  case (Cons m ms)
  have q: "dispatches_below rank (rank a) (m a)" using Cons.prems by simp
  have "\<exists>r i' s'. exec_mw (m a) (\<lambda>ignored. call_from ms (dispatch fuel) (Suc n) a) (dispatch fuel)
            (int n) s = Some (r, i', s') \<and> ranked rank s' \<and> \<not> isDispatching s'"
  proof (rule exec_mw_total [OF _ _ q Cons.prems(2)])
    fix b j u
    assume "ranked rank u \<and> \<not> isDispatching u"
    then show "\<exists>out i' s'. call_from ms (dispatch fuel) (Suc n) a j u = Some (out, i', s')
        \<and> ranked rank s' \<and> \<not> isDispatching s'"
      by (rule Cons.IH [rotated]) (use Cons.prems in simp)
  next
    fix b u
    assume "rank b < rank a" "ranked rank u \<and> \<not> isDispatching u"
    then show "\<exists>out s'. dispatch fuel b u = Some (out, s') \<and> ranked rank s' \<and> \<not> isDispatching s'"
      by (rule disp)
  qed
  then obtain r i' s' where
    "exec_mw (m a) (\<lambda>ignored. call_from ms (dispatch fuel) (Suc n) a) (dispatch fuel) (int n) s
       = Some (r, i', s')"
    "ranked rank s' \<and> \<not> isDispatching s'" by blast
  with Cons.prems show ?case by (cases r) auto
qed

lemma dispatch_total:
  "ranked rank s \<and> \<not> isDispatching s \<Longrightarrow> rank a < fuel \<Longrightarrow>
   \<exists>out s'. dispatch fuel a s = Some (out, s') \<and> ranked rank s' \<and> \<not> isDispatching s'"
proof (induction fuel arbitrary: a s)
  case 0
  then show ?case by simp
next
  case (Suc fuel)
  have m: "\<forall>m \<in> set (middleware s). dispatches_below rank (rank a) (m a)"
    using Suc.prems(1) by (simp add: ranked_def)
  have "\<exists>out i' s'. call_from (middleware s) (dispatch fuel) 0 a (- 1) s = Some (out, i', s')
      \<and> ranked rank s' \<and> \<not> isDispatching s'"
  proof (rule call_from_total [OF _ m Suc.prems(1)])
    fix b u
    assume r: "rank b < rank a" and u: "ranked rank u \<and> \<not> isDispatching u"
    from r Suc.prems(2) have "rank b < fuel" by simp
    with u show "\<exists>out s'. dispatch fuel b u = Some (out, s') \<and> ranked rank s' \<and> \<not> isDispatching s'"
      by (rule Suc.IH)
  qed
  then obtain out i' s' where
    "call_from (middleware s) (dispatch fuel) 0 a (- 1) s = Some (out, i', s')"
    "ranked rank s' \<and> \<not> isDispatching s'" by blast
  with Suc.prems(1) show ?case by (simp add: call_def)
qed

subsection \<open>The dispatching flag\<close>

lemma run_reducer_flag:
  "run_reducer disp r a s = Some (x, s') \<Longrightarrow> \<not> isDispatching s'"
  by (auto simp: run_reducer_def split: option.splits)

lemma forEach_reducers_flag:
  "\<not> isDispatching s \<Longrightarrow> forEach_reducers rs disp a s = Some (x, s') \<Longrightarrow> \<not> isDispatching s'"
proof (induction rs arbitrary: s)
  case Nil
  then show ?case by simp
next
  case (Cons r rs)
  from Cons.prems(2) obtain y s1 where
    r: "run_reducer disp r a s = Some (y, s1)"
    by (auto split: option.splits)
  have f: "\<not> isDispatching s1" using r by (rule run_reducer_flag)
  show ?case
  proof (cases y)
    case None
    with r Cons.prems(2) have "forEach_reducers rs disp a s1 = Some (x, s')" by simp
    with f show ?thesis by (rule Cons.IH)
  next
    case (Some e)
    with r Cons.prems(2) f show ?thesis by simp
  qed
qed

lemma terminal_flag:
  "\<not> isDispatching s \<Longrightarrow> terminal disp a s = Some (out, s') \<Longrightarrow> \<not> isDispatching s'"
  by (auto simp: terminal_def dest: forEach_reducers_flag
      split: if_splits option.splits sum.splits)

lemma exec_mw_flag:
  assumes nxt: "\<And>a i s out i' s'. \<not> isDispatching s \<Longrightarrow> nxt a i s = Some (out, i', s')
                  \<Longrightarrow> \<not> isDispatching s'"
    and disp: "\<And>a s out s'. \<not> isDispatching s \<Longrightarrow> disp a s = Some (out, s')
                  \<Longrightarrow> \<not> isDispatching s'"
  shows "\<not> isDispatching s \<Longrightarrow> exec_mw p nxt disp i s = Some (r, i', s') \<Longrightarrow> \<not> isDispatching s'"
proof (induction p arbitrary: i s)
  case (MNext a k)
  from MNext.prems(2) obtain out i1 s1 where
    n: "nxt a i s = Some (out, i1, s1)" and e: "exec_mw (k out) nxt disp i1 s1 = Some (r, i', s')"
    by (auto split: option.splits)
  have f: "\<not> isDispatching s1" using MNext.prems(1) n by (rule nxt)
  show ?case by (rule MNext.IH [OF _ f e]) simp
next
  case (MDispatch a k)
  from MDispatch.prems(2) obtain out s1 where
    n: "disp a s = Some (out, s1)" and e: "exec_mw (k out) nxt disp i s1 = Some (r, i', s')"
    by (auto split: option.splits)
  have f: "\<not> isDispatching s1" using MDispatch.prems(1) n by (rule disp)
  show ?case by (rule MDispatch.IH [OF _ f e]) simp
qed simp_all

lemma call_from_flag:
  assumes disp: "\<And>a s out s'. \<not> isDispatching s \<Longrightarrow> disp a s = Some (out, s')
                  \<Longrightarrow> \<not> isDispatching s'"
  shows "\<not> isDispatching s \<Longrightarrow> call_from ms disp n a i s = Some (out, i', s')
           \<Longrightarrow> \<not> isDispatching s'"
proof (induction ms arbitrary: n i s out i' s')
  case Nil
  then show ?case
    by (auto dest: terminal_flag split: if_splits option.splits)
next
  case (Cons m ms)
  show ?case
  proof (cases "int n \<le> i")
    case True
    with Cons.prems show ?thesis by simp
  next
    case False
    with Cons.prems(2) obtain r where
      e: "exec_mw (m a) (\<lambda>ignored. call_from ms disp (Suc n) a) disp (int n) s = Some (r, i', s')"
      by (auto split: option.splits sum.splits)
    show ?thesis
    proof (rule exec_mw_flag [OF _ _ Cons.prems(1) e])
      fix b j u out1 j1 u1
      assume "\<not> isDispatching u" "call_from ms disp (Suc n) a j u = Some (out1, j1, u1)"
      then show "\<not> isDispatching u1" by (rule Cons.IH)
    next
      fix b u out1 u1
      assume "\<not> isDispatching u" "disp b u = Some (out1, u1)"
      then show "\<not> isDispatching u1" by (rule disp)
    qed
  qed
qed

lemma dispatch_flag:
  "\<not> isDispatching s \<Longrightarrow> dispatch fuel a s = Some (out, s') \<Longrightarrow> \<not> isDispatching s'"
proof (induction fuel arbitrary: a s out s')
  case 0
  then show ?case by simp
next
  case (Suc fuel)
  from Suc.prems obtain i' where
    c: "call_from (middleware s) (dispatch fuel) 0 a (- 1) s = Some (out, i', s')"
    by (auto simp: call_def split: option.splits)
  show ?case
  proof (rule call_from_flag [OF _ Suc.prems(1) c])
    fix b u out1 u1
    assume "\<not> isDispatching u" "dispatch fuel b u = Some (out1, u1)"
    then show "\<not> isDispatching u1" by (rule Suc.IH)
  qed
qed

lemma exec_mw_past_guard:
  assumes nxt: "\<And>a i s out i' s'. \<not> isDispatching s \<Longrightarrow> nxt a i s = Some (out, i', s')
                  \<Longrightarrow> \<not> isDispatching s'"
  shows "\<not> isDispatching s \<Longrightarrow>
         exec_mw p nxt (dispatch fuel) i s = exec_mw p nxt (past_guard fuel) i s"
proof (induction p arbitrary: i s)
  case (MNext a k)
  show ?case
  proof (cases "nxt a i s")
    case None
    then show ?thesis by simp
  next
    case (Some x)
    obtain out i1 s1 where x: "x = (out, i1, s1)" by (cases x)
    have f: "\<not> isDispatching s1" using MNext.prems Some [unfolded x] by (rule nxt)
    have "exec_mw (k out) nxt (dispatch fuel) i1 s1 = exec_mw (k out) nxt (past_guard fuel) i1 s1"
      by (rule MNext.IH [OF _ f]) simp
    with Some x show ?thesis by simp
  qed
next
  case (MDispatch a k)
  have d: "dispatch fuel a s = past_guard fuel a s"
    using MDispatch.prems by (rule dispatch_past_guard)
  show ?case
  proof (cases "past_guard fuel a s")
    case None
    with d show ?thesis by simp
  next
    case (Some x)
    obtain out s1 where x: "x = (out, s1)" by (cases x)
    have f: "\<not> isDispatching s1"
      using MDispatch.prems d Some x dispatch_flag [of s fuel a out s1] by simp
    have "exec_mw (k out) nxt (dispatch fuel) i s1 = exec_mw (k out) nxt (past_guard fuel) i s1"
      by (rule MDispatch.IH [OF _ f]) simp
    with Some x d show ?thesis by simp
  qed
qed simp_all


lemmas eval_defs = bind_def initialize_def blank_def empty_cell_def Object_keys_def
  array_index_def call_def terminal_def reducers_for_def run_reducer_def Let_def set_edit_def
  has_in_def Object_prototype_def apply_edit_def member_def get_def model_def use_def
  pass_through_def new_store_def an_action_def a_date_def setting_def throwing_def probing_def
  probe_store_def three_reducers_def relabel_store_def logging_def short_circuit_def twice_def
  echo_def counter_store_def increment_def decrement_def raising_def
  next_turn_def run_job_def emit_def strict_eq_def truthy_member_def set_all_def
  emitted_for_def prevValueByKey_def assign_model_def assign_flag_def step_by_def
  safe_integer_def thunk_def thunk_store_def reopening_def reopen_store_def
  thenable_action_def reparented_def

lemma run_reducer_refusing:
  "never_initializes (r a) \<Longrightarrow> run_reducer (dispatch fuel) r a s = run_reducer refusing r a s"
  by (simp add: run_reducer_def exec_red_refusing)

lemma forEach_reducers_refusing:
  "\<forall>r \<in> set rs. never_initializes (r a) \<Longrightarrow>
   forEach_reducers rs (dispatch fuel) a s = forEach_reducers rs refusing a s"
  by (induction rs arbitrary: s) (simp_all add: run_reducer_refusing split: option.splits)

text \<open>
  Claim C4, as the code has it. A \<^verbatim>\<open>dispatch\<close> called while the flag is up throws
  \<^verbatim>\<open>Reducers can't dispatch actions\<close> at once and changes nothing. While a reducer that does
  not call \<^verbatim>\<open>store.initialize\<close> runs, the flag is up: each of the reducer's calls of
  \<^verbatim>\<open>dispatch\<close> throws that error, the reducer ends, the flag is still up then, and the
  \<^verbatim>\<open>finally\<close> block lowers it, also when the reducer threw; so the loop over such reducers
  runs as it would if \<^verbatim>\<open>dispatch\<close> did nothing but throw. Outside the reducers the flag is
  down: when \<^verbatim>\<open>dispatch\<close> is called with the flag down it goes past its guard, each call of
  \<^verbatim>\<open>dispatch\<close> that a middleware makes (the program \<open>p\<close>, before and after its calls of
  \<^verbatim>\<open>next\<close>) goes past the guard too, and the flag is down when \<^verbatim>\<open>next\<close> has returned, when
  the middleware ends and when \<^verbatim>\<open>dispatch\<close> has returned. On a ranked store \<^verbatim>\<open>dispatch\<close>
  does return, given fuel above the rank of the action. A store is initialized with the
  flag down.
\<close>

theorem flag_up_while_reducers_run:
  "(isDispatching s \<longrightarrow> dispatch fuel action s = Some (Threw (Error reentrant_msg), s))
   \<and> (never_initializes (r a) \<longrightarrow>
        exec_red (r a) (dispatch fuel) (s\<lparr>isDispatching := True\<rparr>)
          = exec_red (r a) refusing (s\<lparr>isDispatching := True\<rparr>)
        \<and> (\<exists>x s'. exec_red (r a) (dispatch fuel) (s\<lparr>isDispatching := True\<rparr>) = Some (x, s')
              \<and> isDispatching s'
              \<and> run_reducer (dispatch fuel) r a s = Some (x, s'\<lparr>isDispatching := False\<rparr>)))
   \<and> ((\<forall>r \<in> set rs. never_initializes (r a)) \<longrightarrow>
        forEach_reducers rs (dispatch fuel) a s = forEach_reducers rs refusing a s)
   \<and> (\<not> isDispatching s \<longrightarrow>
        dispatch fuel action s = past_guard fuel action s
        \<and> exec_mw p (\<lambda>ignored. call_from ms (dispatch fuel) n a) (dispatch fuel) i s
            = exec_mw p (\<lambda>ignored. call_from ms (dispatch fuel) n a) (past_guard fuel) i s
        \<and> (\<forall>x i' s'. exec_mw p (\<lambda>ignored. call_from ms (dispatch fuel) n a) (dispatch fuel) i s
                        = Some (x, i', s') \<longrightarrow> \<not> isDispatching s')
        \<and> (\<forall>out i' s'. call_from ms (dispatch fuel) n a i s = Some (out, i', s')
                        \<longrightarrow> \<not> isDispatching s')
        \<and> (\<forall>out s'. dispatch fuel action s = Some (out, s') \<longrightarrow> \<not> isDispatching s')
        \<and> (ranked rank s \<and> rank action < fuel \<longrightarrow>
             (\<exists>out s'. dispatch fuel action s = Some (out, s') \<and> \<not> isDispatching s')))
   \<and> \<not> isDispatching (initialize arg s)"
proof -
  let ?nxt = "\<lambda>ignored. call_from ms (dispatch fuel) n a"
  have f: "isDispatching (s\<lparr>isDispatching := True\<rparr>)" by simp
  have c1: "isDispatching s \<longrightarrow> dispatch fuel action s = Some (Threw (Error reentrant_msg), s)"
    by (simp add: dispatch_refuses refusing_def)
  have c2: "never_initializes (r a) \<longrightarrow>
        exec_red (r a) (dispatch fuel) (s\<lparr>isDispatching := True\<rparr>)
          = exec_red (r a) refusing (s\<lparr>isDispatching := True\<rparr>)
        \<and> (\<exists>x s'. exec_red (r a) (dispatch fuel) (s\<lparr>isDispatching := True\<rparr>) = Some (x, s')
              \<and> isDispatching s'
              \<and> run_reducer (dispatch fuel) r a s = Some (x, s'\<lparr>isDispatching := False\<rparr>))"
  proof
    assume ni: "never_initializes (r a)"
    have b: "exec_red (r a) (dispatch fuel) (s\<lparr>isDispatching := True\<rparr>)
               = exec_red (r a) refusing (s\<lparr>isDispatching := True\<rparr>)"
      by (rule exec_red_refusing [OF ni f])
    from exec_red_total [OF ni f] obtain x s' where
      t: "exec_red (r a) refusing (s\<lparr>isDispatching := True\<rparr>) = Some (x, s')" "isDispatching s'"
      by blast
    have "\<exists>x s'. exec_red (r a) (dispatch fuel) (s\<lparr>isDispatching := True\<rparr>) = Some (x, s')
              \<and> isDispatching s'
              \<and> run_reducer (dispatch fuel) r a s = Some (x, s'\<lparr>isDispatching := False\<rparr>)"
      using t by (simp add: run_reducer_def b)
    with b show "exec_red (r a) (dispatch fuel) (s\<lparr>isDispatching := True\<rparr>)
          = exec_red (r a) refusing (s\<lparr>isDispatching := True\<rparr>)
        \<and> (\<exists>x s'. exec_red (r a) (dispatch fuel) (s\<lparr>isDispatching := True\<rparr>) = Some (x, s')
              \<and> isDispatching s'
              \<and> run_reducer (dispatch fuel) r a s = Some (x, s'\<lparr>isDispatching := False\<rparr>))"
      by blast
  qed
  have c3: "(\<forall>r \<in> set rs. never_initializes (r a)) \<longrightarrow>
        forEach_reducers rs (dispatch fuel) a s = forEach_reducers rs refusing a s"
    by (simp add: forEach_reducers_refusing)
  have nx: "\<And>b j u out j' u'. \<not> isDispatching u \<Longrightarrow> ?nxt b j u = Some (out, j', u')
              \<Longrightarrow> \<not> isDispatching u'"
    by (rule call_from_flag [OF dispatch_flag])
  have c4: "\<not> isDispatching s \<longrightarrow>
        dispatch fuel action s = past_guard fuel action s
        \<and> exec_mw p ?nxt (dispatch fuel) i s = exec_mw p ?nxt (past_guard fuel) i s
        \<and> (\<forall>x i' s'. exec_mw p ?nxt (dispatch fuel) i s = Some (x, i', s') \<longrightarrow> \<not> isDispatching s')
        \<and> (\<forall>out i' s'. call_from ms (dispatch fuel) n a i s = Some (out, i', s')
                        \<longrightarrow> \<not> isDispatching s')
        \<and> (\<forall>out s'. dispatch fuel action s = Some (out, s') \<longrightarrow> \<not> isDispatching s')
        \<and> (ranked rank s \<and> rank action < fuel \<longrightarrow>
             (\<exists>out s'. dispatch fuel action s = Some (out, s') \<and> \<not> isDispatching s'))"
  proof
    assume d: "\<not> isDispatching s"
    have g1: "dispatch fuel action s = past_guard fuel action s"
      using d by (rule dispatch_past_guard)
    have g2: "exec_mw p ?nxt (dispatch fuel) i s = exec_mw p ?nxt (past_guard fuel) i s"
      by (rule exec_mw_past_guard [OF nx d])
    have g3: "\<forall>x i' s'. exec_mw p ?nxt (dispatch fuel) i s = Some (x, i', s') \<longrightarrow> \<not> isDispatching s'"
    proof (intro allI impI)
      fix x i' s'
      assume e: "exec_mw p ?nxt (dispatch fuel) i s = Some (x, i', s')"
      show "\<not> isDispatching s'"
      proof (rule exec_mw_flag [OF _ _ d e])
        fix b j u out j' u'
        assume "\<not> isDispatching u" "?nxt b j u = Some (out, j', u')"
        then show "\<not> isDispatching u'" by (rule nx)
      next
        fix b u out u'
        assume "\<not> isDispatching u" "dispatch fuel b u = Some (out, u')"
        then show "\<not> isDispatching u'" by (rule dispatch_flag)
      qed
    qed
    have g4: "\<forall>out i' s'. call_from ms (dispatch fuel) n a i s = Some (out, i', s')
                        \<longrightarrow> \<not> isDispatching s'"
      using nx [OF d] by blast
    have g5: "\<forall>out s'. dispatch fuel action s = Some (out, s') \<longrightarrow> \<not> isDispatching s'"
      using dispatch_flag [OF d] by blast
    have g6: "ranked rank s \<and> rank action < fuel \<longrightarrow>
             (\<exists>out s'. dispatch fuel action s = Some (out, s') \<and> \<not> isDispatching s')"
      using dispatch_total [of rank s action fuel] d by blast
    from g1 g2 g3 g4 g5 g6
    show "dispatch fuel action s = past_guard fuel action s
        \<and> exec_mw p ?nxt (dispatch fuel) i s = exec_mw p ?nxt (past_guard fuel) i s
        \<and> (\<forall>x i' s'. exec_mw p ?nxt (dispatch fuel) i s = Some (x, i', s') \<longrightarrow> \<not> isDispatching s')
        \<and> (\<forall>out i' s'. call_from ms (dispatch fuel) n a i s = Some (out, i', s')
                        \<longrightarrow> \<not> isDispatching s')
        \<and> (\<forall>out s'. dispatch fuel action s = Some (out, s') \<longrightarrow> \<not> isDispatching s')
        \<and> (ranked rank s \<and> rank action < fuel \<longrightarrow>
             (\<exists>out s'. dispatch fuel action s = Some (out, s') \<and> \<not> isDispatching s'))"
      by blast
  qed
  have c5: "\<not> isDispatching (initialize arg s)"
    by (simp add: initialize_def Let_def)
  from c1 c2 c3 c4 c5 show ?thesis by blast
qed

lemma thunk_store_ranked: "ranked thunk_rank thunk_store"
proof -
  have m: "dispatches_below thunk_rank (thunk_rank a) (thunk a)" for a
    by (cases a) (simp_all add: thunk_def an_action_def split: outcome.splits)
  have r: "never_initializes (setting k d a)" for k d a
    by (simp add: setting_def)
  show ?thesis
    by (simp add: ranked_def thunk_store_def use_def bind_def Object_keys_def array_index_def
        new_store_def initialize_def blank_def Let_def m r Object_prototype_def)
qed

lemma probing_never_initializes: "never_initializes (probing a)"
  by (simp add: probing_def split: outcome.splits exn.splits)

text \<open>
  A reducer that tries \<^verbatim>\<open>store.dispatch\<close> inside \<^verbatim>\<open>try\<close> catches the error and the outer
  dispatch goes on: the message it stored is the one of the claim. With the thunk
  middleware, the dispatch of a function reaches \<^verbatim>\<open>store.dispatch({type: 'X'})\<close> inside the
  middleware; that call is not refused, the reducer bound to \<^verbatim>\<open>X\<close> runs, and both
  dispatches return with the flag down.
\<close>

theorem flag_up_while_reducers_run_witness:
  "isDispatching (probe_store\<lparr>isDispatching := True\<rparr>)
   \<and> dispatch 1 (an_action ''TYPE'' 1) (probe_store\<lparr>isDispatching := True\<rparr>)
       = Some (Threw (Error reentrant_msg), probe_store\<lparr>isDispatching := True\<rparr>)
   \<and> never_initializes (probing (an_action ''TYPE'' 1))
   \<and> forEach_reducers [probing] (dispatch 0) (an_action ''TYPE'' 1) probe_store
       = forEach_reducers [probing] refusing (an_action ''TYPE'' 1) probe_store
   \<and> map_option (\<lambda>p. (fst p, get (snd p) (KStr ''caught'')))
        (dispatch 1 (an_action ''TYPE'' 1) probe_store)
       = Some (Returned (Resolved (an_action ''TYPE'' 1)), Data (Str reentrant_msg))
   \<and> \<not> isDispatching thunk_store \<and> ranked thunk_rank thunk_store
   \<and> thunk_rank (Function ''thunk'') < 2
   \<and> (\<exists>out s'. dispatch 2 (Function ''thunk'') thunk_store = Some (out, s') \<and> \<not> isDispatching s')
   \<and> exec_mw (thunk (Function ''thunk''))
        (\<lambda>ignored. call_from [] (dispatch 1) 1 (Function ''thunk'')) (dispatch 1) 0 thunk_store
       = exec_mw (thunk (Function ''thunk''))
        (\<lambda>ignored. call_from [] (dispatch 1) 1 (Function ''thunk'')) (past_guard 1) 0 thunk_store
   \<and> map_option (\<lambda>p. (fst p, get (snd p) (KStr ''x'')))
        (dispatch 2 (Function ''thunk'') thunk_store)
       = Some (Returned (Resolved (Data Undefined)), Data (Num 1))"
proof -
  let ?a = "an_action ''TYPE'' 1"
  let ?f = "Function ''thunk''"
  have up: "isDispatching (probe_store\<lparr>isDispatching := True\<rparr>)" by simp
  have down: "\<not> isDispatching thunk_store" by (simp add: eval_defs)
  have rk: "thunk_rank ?f < 2" by simp
  have ni: "\<forall>r \<in> set [probing]. never_initializes (r ?a)"
    by (simp add: probing_never_initializes)
  have run: "map_option (\<lambda>p. (fst p, get (snd p) (KStr ''caught''))) (dispatch 1 ?a probe_store)
       = Some (Returned (Resolved ?a), Data (Str reentrant_msg))"
    by (simp add: eval_defs)
  have th: "map_option (\<lambda>p. (fst p, get (snd p) (KStr ''x''))) (dispatch 2 ?f thunk_store)
       = Some (Returned (Resolved (Data Undefined)), Data (Num 1))"
    by (simp add: eval_defs numeral_2_eq_2)
  have a1: "dispatch 1 ?a (probe_store\<lparr>isDispatching := True\<rparr>)
       = Some (Threw (Error reentrant_msg), probe_store\<lparr>isDispatching := True\<rparr>)"
    using flag_up_while_reducers_run [where s = "probe_store\<lparr>isDispatching := True\<rparr>"
        and fuel = 1 and action = ?a] up
    by blast
  have a2: "forEach_reducers [probing] (dispatch 0) ?a probe_store
       = forEach_reducers [probing] refusing ?a probe_store"
    using flag_up_while_reducers_run [where s = probe_store and fuel = 0 and a = ?a
        and rs = "[probing]"] ni
    by blast
  have a3: "\<exists>out s'. dispatch 2 ?f thunk_store = Some (out, s') \<and> \<not> isDispatching s'"
    using flag_up_while_reducers_run [where s = thunk_store and fuel = 2 and action = ?f
        and rank = thunk_rank] down rk thunk_store_ranked
    by blast
  have a4: "exec_mw (thunk ?f) (\<lambda>ignored. call_from [] (dispatch 1) 1 ?f) (dispatch 1) 0 thunk_store
       = exec_mw (thunk ?f) (\<lambda>ignored. call_from [] (dispatch 1) 1 ?f) (past_guard 1) 0 thunk_store"
    using flag_up_while_reducers_run [where s = thunk_store and fuel = 1 and a = ?f
        and p = "thunk ?f" and ms = "[]" and n = 1 and i = 0] down
    by blast
  from up a1 probing_never_initializes a2 run down thunk_store_ranked rk a3 a4 th
  show ?thesis by blast
qed

text \<open>
  Claim C4 as stated fails: a reducer that calls \<^verbatim>\<open>store.initialize()\<close> lowers the flag
  while it runs. Its call of \<^verbatim>\<open>store.dispatch\<close> then returns a promise instead of throwing,
  the flag is down when the reducer ends, and the outer dispatch resolves.
\<close>

theorem initialize_lowers_flag_in_reducer:
  "map_option (\<lambda>p. (fst p, isDispatching (snd p), get (snd p) (KStr ''nested'')))
     (exec_red (reopening (an_action ''TYPE'' 1)) (dispatch 1)
        (reopen_store\<lparr>isDispatching := True\<rparr>))
     = Some (None, False, Data (Str ''returned''))
   \<and> map_option (\<lambda>p. (fst p, get (snd p) (KStr ''nested'')))
       (dispatch 2 (an_action ''TYPE'' 1) reopen_store)
     = Some (Returned (Resolved (an_action ''TYPE'' 1)), Data (Str ''returned''))"
  by (simp add: eval_defs numeral_2_eq_2)

subsection \<open>Errors of reducers, invalid actions, and the value a dispatch resolves with\<close>

lemma forEach_reducers_stops:
  "forEach_reducers rs1 disp a s = Some (None, s1) \<Longrightarrow>
   run_reducer disp r a s1 = Some (Some e, s2) \<Longrightarrow>
   forEach_reducers (rs1 @ r # rs2) disp a s = Some (Some e, s2)"
proof (induction rs1 arbitrary: s)
  case Nil
  then show ?case by simp
next
  case (Cons q rs1)
  then show ?case
    by (auto split: option.splits)
qed

text \<open>
  Claim C10: with no middleware, when the reducers bound before \<open>r\<close> return and \<open>r\<close> throws
  \<open>e\<close>, \<^verbatim>\<open>dispatch\<close> itself throws \<open>e\<close> (it returns no promise), the loop ends with the store as
  \<open>r\<close> left it, whatever reducers \<open>rs2\<close> are bound after \<open>r\<close>, and the flag is down.
\<close>

theorem reducer_error_leaves_dispatch:
  assumes "middleware s = []"
    and "\<not> isDispatching s"
    and "isPlainObject a"
    and "type_of a = Some t"
    and "reducersByType s (KStr t) = Some (rs1 @ r # rs2)"
    and "forEach_reducers rs1 (dispatch fuel) a s = Some (None, s1)"
    and "run_reducer (dispatch fuel) r a s1 = Some (Some e, s2)"
  shows "dispatch (Suc fuel) a s = Some (Threw e, s2)
       \<and> forEach_reducers (rs1 @ r # rs2) (dispatch fuel) a s = Some (Some e, s2)
       \<and> \<not> isDispatching s2"
proof -
  have l: "forEach_reducers (rs1 @ r # rs2) (dispatch fuel) a s = Some (Some e, s2)"
    using assms(6,7) by (rule forEach_reducers_stops)
  have t: "terminal (dispatch fuel) a s = Some (Threw e, s2)"
    using assms(3,4,5) l by (simp add: terminal_def reducers_for_def)
  have d: "dispatch (Suc fuel) a s = Some (Threw e, s2)"
    using assms(1,2) t by (simp add: call_def)
  from d l run_reducer_flag [OF assms(7)] show ?thesis by blast
qed

lemma call_from_pass_through:
  "index < int n \<Longrightarrow>
   call_from (map pass_through ts) disp n a index s =
     (case terminal disp a s of
        None \<Rightarrow> None
      | Some (Threw e, s') \<Rightarrow>
          Some (if ts = [] then Threw e else Returned (Rejected e), int (n + length ts), s')
      | Some (Returned p, s') \<Rightarrow> Some (Returned p, int (n + length ts), s'))"
proof (induction ts arbitrary: n index)
  case Nil
  then show ?case by (auto split: option.splits outcome.splits)
next
  case (Cons t ts)
  have "int n < int (Suc n)" by simp
  from Cons.IH [OF this] Cons.prems show ?case
    by (auto simp: pass_through_def split: option.splits outcome.splits)
qed

lemma dispatch_pass_through:
  "\<not> isDispatching s \<Longrightarrow> middleware s = map pass_through ts \<Longrightarrow>
   dispatch (Suc fuel) a s =
     (case terminal (dispatch fuel) a s of
        None \<Rightarrow> None
      | Some (Threw e, s') \<Rightarrow> Some (if ts = [] then Threw e else Returned (Rejected e), s')
      | Some (Returned p, s') \<Rightarrow> Some (Returned p, s'))"
  by (simp add: call_def call_from_pass_through split: option.splits outcome.splits)

text \<open>
  Claim C5, as the code has it: the shape of the action is checked in the step past the
  last middleware. When \<^verbatim>\<open>dispatch\<close> is called outside a reducer and every middleware hands
  on to \<^verbatim>\<open>next\<close> and returns its promise, a value that is no plain object, and a plain
  object without \<^verbatim>\<open>type\<close>, are rejected with their messages, and the store is as it was:
  no reducer ran, the model is unchanged, nothing is queued.
\<close>

theorem invalid_action_rejected:
  assumes "\<not> isDispatching s" and "middleware s = map pass_through ts"
  shows "(\<not> isPlainObject a \<longrightarrow>
           dispatch (Suc fuel) a s = Some (Returned (Rejected (Error not_plain_msg)), s))
       \<and> (isPlainObject a \<and> type_of a = None \<longrightarrow>
           dispatch (Suc fuel) a s = Some (Returned (Rejected (Error no_type_msg)), s))"
  unfolding dispatch_pass_through [OF assms] by (simp add: terminal_def)




text \<open>
  An action with a \<^verbatim>\<open>then\<close> method is followed by the promise that \<^verbatim>\<open>dispatch\<close> returns:
  \<^verbatim>\<open>{type: 'A', then: (resolve) => resolve(7)}\<close> on a new store resolves with 7.
\<close>

theorem thenable_action_is_followed:
  "isPlainObject thenable_action \<and> type_of thenable_action = Some ''A''
   \<and> dispatch 1 thenable_action new_store = Some (Returned (Resolved (Data (Num 7))), new_store)"
  by (simp add: thenable_action_def terminal_def call_def reducers_for_def new_store_def
      initialize_def blank_def Let_def Object_prototype_def)

subsection \<open>Witnesses and counterexamples of the dispatch claims\<close>

text \<open>
  Three reducers are bound to \<^verbatim>\<open>T\<close>: the first sets \<^verbatim>\<open>x\<close> to 1, the second throws, the third
  would set \<^verbatim>\<open>x\<close> to 2.
\<close>

theorem reducer_error_leaves_dispatch_witness:
  "map_option (\<lambda>p. (fst p, get (snd p) (KStr ''x''), isDispatching (snd p)))
     (dispatch 1 (an_action ''T'' 1) three_reducers)
   = Some (Threw (Raised (Data (Str ''boom''))), Data (Num 1), False)"
proof -
  let ?a = "an_action ''T'' 1"
  let ?r1 = "setting (KStr ''x'') (Num 1)"
  let ?r = "throwing (Raised (Data (Str ''boom'')))"
  let ?r2 = "setting (KStr ''x'') (Num 2)"
  let ?s1 = "snd (the (forEach_reducers [?r1] (dispatch 0) ?a three_reducers))"
  let ?s2 = "snd (the (run_reducer (dispatch 0) ?r ?a ?s1))"
  have h1: "middleware three_reducers = []" by (simp add: eval_defs)
  have h2: "\<not> isDispatching three_reducers" by (simp add: eval_defs)
  have h3: "isPlainObject ?a" by (simp add: eval_defs)
  have h4: "type_of ?a = Some ''T''" by (simp add: eval_defs)
  have h5: "reducersByType three_reducers (KStr ''T'') = Some ([?r1] @ ?r # [?r2])"
    by (simp add: eval_defs)
  have h6: "forEach_reducers [?r1] (dispatch 0) ?a three_reducers = Some (None, ?s1)"
    by (simp add: eval_defs)
  have h7: "run_reducer (dispatch 0) ?r ?a ?s1 = Some (Some (Raised (Data (Str ''boom''))), ?s2)"
    by (simp add: eval_defs)
  have x: "get ?s2 (KStr ''x'') = Data (Num 1)"
    by (simp add: eval_defs)
  from reducer_error_leaves_dispatch [OF h1 h2 h3 h4 h5 h6 h7] x show ?thesis
    by (simp del: dispatch.simps)
qed

text \<open>
  A \<^verbatim>\<open>Date\<close> behind a middleware that hands on, and \<^verbatim>\<open>{}\<close> on a store without middleware.
\<close>

theorem invalid_action_rejected_witness:
  "dispatch 1 a_date (use (pass_through (\<lambda>a. a)) new_store)
     = Some (Returned (Rejected (Error not_plain_msg)), use (pass_through (\<lambda>a. a)) new_store)
   \<and> dispatch 1 (Data (Obj 3 [0] None [] None)) new_store
     = Some (Returned (Rejected (Error no_type_msg)), new_store)"
proof -
  have h1: "\<not> isDispatching (use (pass_through (\<lambda>a. a)) new_store)" by (simp add: eval_defs)
  have h2: "middleware (use (pass_through (\<lambda>a. a)) new_store) = map pass_through [\<lambda>a. a]"
    by (simp add: eval_defs)
  have h3: "\<not> isDispatching new_store" by (simp add: eval_defs)
  have h4: "middleware new_store = map pass_through []" by (simp add: eval_defs)
  have p1: "\<not> isPlainObject a_date" by (simp add: eval_defs)
  have p2: "isPlainObject (Data (Obj 3 [0] None [] None)) \<and> type_of (Data (Obj 3 [0] None [] None)) = None"
    by simp
  from invalid_action_rejected [OF h1 h2, of a_date 0]
    invalid_action_rejected [OF h3 h4, of "Data (Obj 3 [0] None [] None)" 0] p1 p2
  show ?thesis by (simp del: dispatch.simps)
qed

text \<open>
  Claim C5 as stated fails: behind a middleware that returns without calling \<^verbatim>\<open>next\<close>, the
  dispatch of a \<^verbatim>\<open>Date\<close> resolves.
\<close>

theorem short_circuit_accepts_any_value:
  "map_option fst (dispatch 1 a_date (use short_circuit new_store))
     = Some (Returned (Resolved (Data Undefined)))"
  by (simp add: eval_defs)



text \<open>
  Claim C3 fails on the code: a middleware hands \<^verbatim>\<open>{type: 'B'}\<close> to \<^verbatim>\<open>next\<close> while it was given
  \<^verbatim>\<open>{type: 'A'}\<close>. The middleware behind it is given \<^verbatim>\<open>{type: 'A'}\<close> (it returns what it was
  given, and the dispatch resolves with that); and with no middleware behind it, the
  reducer bound to \<^verbatim>\<open>A\<close> runs, not the one bound to \<^verbatim>\<open>B\<close>.
\<close>

theorem next_drops_the_action_it_is_given:
  "map_option fst
     (dispatch 1 (an_action ''A'' 1) (use echo (use (pass_through (\<lambda>a. an_action ''B'' 2)) new_store)))
   = Some (Returned (Resolved (an_action ''A'' 1)))
   \<and> map_option (\<lambda>p. get (snd p) (KStr ''ran'')) (dispatch 1 (an_action ''A'' 1) relabel_store)
   = Some (Data (Str ''A''))"
  by (simp add: eval_defs)

subsection \<open>Calling next more than once\<close>

lemma call_from_rejects:
  "int n \<le> i \<Longrightarrow> call_from ms disp n a i s = rejecting a i s"
  by (cases ms) (simp_all add: rejecting_def)

lemma exec_mw_index_mono:
  assumes nxt: "\<And>a i s out i' s'. nxt a i s = Some (out, i', s') \<Longrightarrow> i \<le> i'"
  shows "exec_mw p nxt disp i s = Some (r, i', s') \<Longrightarrow> i \<le> i'"
proof (induction p arbitrary: i s)
  case (MNext a k)
  from MNext.prems obtain out i1 s1 where
    n: "nxt a i s = Some (out, i1, s1)" and e: "exec_mw (k out) nxt disp i1 s1 = Some (r, i', s')"
    by (auto split: option.splits)
  have "i1 \<le> i'" by (rule MNext.IH [OF _ e]) simp
  with nxt [OF n] show ?case by simp
next
  case (MDispatch a k)
  from MDispatch.prems obtain out s1 where
    e: "exec_mw (k out) nxt disp i s1 = Some (r, i', s')"
    by (auto split: option.splits)
  show ?case by (rule MDispatch.IH [OF _ e]) simp
qed simp_all

lemma call_from_index:
  "call_from ms disp n a i s = Some (out, i', s') \<Longrightarrow> i \<le> i' \<and> int n \<le> i'"
proof (induction ms arbitrary: n i s out i' s')
  case Nil
  then show ?case by (auto split: if_splits option.splits)
next
  case (Cons m ms)
  show ?case
  proof (cases "int n \<le> i")
    case True
    with Cons.prems show ?thesis by simp
  next
    case False
    with Cons.prems obtain r where
      e: "exec_mw (m a) (\<lambda>ignored. call_from ms disp (Suc n) a) disp (int n) s = Some (r, i', s')"
      by (auto split: option.splits sum.splits)
    have "int n \<le> i'"
      by (rule exec_mw_index_mono [OF _ e]) (use Cons.IH in blast)
    with False show ?thesis by simp
  qed
qed

lemma exec_mw_rejecting:
  "int n \<le> i \<Longrightarrow>
   exec_mw p (\<lambda>ignored. call_from ms disp n a) disp' i s = exec_mw p rejecting disp' i s"
proof (induction p arbitrary: s)
  case (MNext b k)
  have c: "call_from ms disp n a i s = Some (Returned (Rejected (Error double_next_msg)), i, s)"
    using MNext.prems by (simp add: call_from_rejects rejecting_def)
  have r: "rejecting b i s = Some (Returned (Rejected (Error double_next_msg)), i, s)"
    by (simp add: rejecting_def)
  have "exec_mw (k (Returned (Rejected (Error double_next_msg)))) (\<lambda>ignored. call_from ms disp n a)
            disp' i s
          = exec_mw (k (Returned (Rejected (Error double_next_msg)))) rejecting disp' i s"
    by (rule MNext.IH) (simp_all add: MNext.prems)
  then show ?case
    by (simp only: exec_mw.simps c r option.case prod.case)
next
  case (MDispatch b k)
  show ?case
  proof (cases "disp' b s")
    case None
    then show ?thesis by simp
  next
    case (Some x)
    obtain out s1 where x: "x = (out, s1)" by (cases x)
    have "exec_mw (k out) (\<lambda>ignored. call_from ms disp n a) disp' i s1
            = exec_mw (k out) rejecting disp' i s1"
      by (rule MDispatch.IH) (simp_all add: MDispatch.prems)
    with Some x show ?thesis by simp
  qed
qed simp_all

text \<open>
  Claim C7: \<open>i\<close> is the highest index the chain has reached. A capability bound to an index
  \<open>n\<close> that is not above \<open>i\<close> returns the promise rejected with
  \<^verbatim>\<open>`next()` called more than once\<close> and changes nothing. Once a capability has been
  invoked and has returned, its index is not above the highest one, and whatever the
  middleware does next (the program \<open>p\<close>), each further invocation is rejected so.
\<close>

theorem next_called_more_than_once:
  "(int n \<le> i \<longrightarrow>
      call_from ms disp n a i s = Some (Returned (Rejected (Error double_next_msg)), i, s))
   \<and> (call_from ms disp n a i s = Some (out, i1, s1) \<longrightarrow>
        int n \<le> i1
        \<and> call_from ms disp n a i1 s1
            = Some (Returned (Rejected (Error double_next_msg)), i1, s1)
        \<and> exec_mw p (\<lambda>ignored. call_from ms disp n a) disp i1 s1
            = exec_mw p rejecting disp i1 s1)"
proof -
  have a: "int n \<le> i \<longrightarrow>
      call_from ms disp n a i s = Some (Returned (Rejected (Error double_next_msg)), i, s)"
    by (simp add: call_from_rejects rejecting_def)
  have b: "call_from ms disp n a i s = Some (out, i1, s1) \<longrightarrow>
        int n \<le> i1
        \<and> call_from ms disp n a i1 s1
            = Some (Returned (Rejected (Error double_next_msg)), i1, s1)
        \<and> exec_mw p (\<lambda>ignored. call_from ms disp n a) disp i1 s1
            = exec_mw p rejecting disp i1 s1"
  proof
    assume "call_from ms disp n a i s = Some (out, i1, s1)"
    then have le: "int n \<le> i1" using call_from_index by blast
    then show "int n \<le> i1
        \<and> call_from ms disp n a i1 s1
            = Some (Returned (Rejected (Error double_next_msg)), i1, s1)
        \<and> exec_mw p (\<lambda>ignored. call_from ms disp n a) disp i1 s1
            = exec_mw p rejecting disp i1 s1"
      by (simp add: call_from_rejects rejecting_def exec_mw_rejecting)
  qed
  from a b show ?thesis by blast
qed

text \<open>
  With no reducer bound, the first invocation of the capability bound to index 1 resolves
  and leaves the store as it was; the second is rejected. A middleware that calls
  \<^verbatim>\<open>next\<close> twice and returns the second promise makes the dispatch reject with the message.
\<close>

theorem next_called_more_than_once_witness:
  "call_from [] (dispatch 0) 1 (an_action ''A'' 1) 0 new_store
     = Some (Returned (Resolved (an_action ''A'' 1)), 1, new_store)
   \<and> call_from [] (dispatch 0) 1 (an_action ''A'' 1) 1 new_store
     = Some (Returned (Rejected (Error double_next_msg)), 1, new_store)
   \<and> exec_mw (MNext (an_action ''A'' 1) (\<lambda>second. MReturn (Plain (Data Null))))
        (\<lambda>ignored. call_from [] (dispatch 0) 1 (an_action ''A'' 1)) (dispatch 0) 1 new_store
     = exec_mw (MNext (an_action ''A'' 1) (\<lambda>second. MReturn (Plain (Data Null))))
        rejecting (dispatch 0) 1 new_store
   \<and> map_option fst (dispatch 1 (an_action ''A'' 1) (use twice new_store))
     = Some (Returned (Rejected (Error double_next_msg)))"
proof -
  let ?a = "an_action ''A'' 1"
  have f: "call_from [] (dispatch 0) 1 ?a 0 new_store = Some (Returned (Resolved ?a), 1, new_store)"
    by (simp add: eval_defs)
  have d: "map_option fst (dispatch 1 ?a (use twice new_store))
     = Some (Returned (Rejected (Error double_next_msg)))"
    by (simp add: eval_defs)
  from next_called_more_than_once [of 1 0 "[]" "dispatch 0" ?a new_store "Returned (Resolved ?a)"
      1 new_store "MNext ?a (\<lambda>second. MReturn (Plain (Data Null)))"] f d
  show ?thesis by (simp del: dispatch.simps call_from.simps exec_mw.simps)
qed

lemma exec_mw_with_args:
  "exec_mw (with_args g p) (\<lambda>ignored. c) disp i s = exec_mw p (\<lambda>ignored. c) disp i s"
  by (induction p arbitrary: i s) (simp_all split: option.splits)

lemma next_argument_unused:
  "call_from (m # ms) disp n a i s = call_from ((\<lambda>x. with_args g (m x)) # ms) disp n a i s"
  by (simp add: exec_mw_with_args)

subsection \<open>An edit that throws\<close>

lemma map_of_update_other:
  "k' \<noteq> k \<Longrightarrow> map_of (AList.update k' v al) k = map_of al k"
  by (simp add: update_conv')

lemma assign_model_fields [simp]:
  "c_prev (assign_model k v c) = c_prev c"
  "assign_model k v (c\<lparr>c_prev := p\<rparr>) = (assign_model k v c)\<lparr>c_prev := p\<rparr>"
  by (simp_all add: assign_model_def)

lemma assign_model_member_other:
  "k' \<noteq> k \<Longrightarrow>
   member (map_of (c_model (assign_model k' v c))) k = member (map_of (c_model c)) k"
  by (simp add: assign_model_def member_def map_of_update_other)

lemma assign_flag_own: "\<not> inherited k \<Longrightarrow> assign_flag k b m = m(k \<mapsto> b)"
  by (auto simp: assign_flag_def Object_prototype_def)

lemma with_snapshot_fields [simp]:
  "this_cell (with_snapshot k s) = this_cell s"
  "jobs (with_snapshot k s) = jobs s"
  "emitted (with_snapshot k s) = emitted s"
  "emittingByKey (with_snapshot k s) = emittingByKey s"
  "isDispatching (with_snapshot k s) = isDispatching s"
  "model (with_snapshot k s) = model s"
  "get (with_snapshot k s) k' = get s k'"
  by (simp_all add: with_snapshot_def model_def get_def)

lemma set_edit_failing:
  "apply_edit e (get s k) = Inl err \<Longrightarrow>
   set_edit k e s = (Some err, if has_in k (prevValueByKey s) then s else with_snapshot k s)"
  by (simp add: set_edit_def Let_def get_def model_def prevValueByKey_def with_snapshot_def)

lemma set_edit_this_cell [simp]: "this_cell (snd (set_edit k e s)) = this_cell s"
  by (simp add: set_edit_def Let_def split: sum.splits)

lemma set_edit_get_other:
  "k' \<noteq> k \<Longrightarrow> get (snd (set_edit k' e s)) k = get s k"
  by (simp add: set_edit_def Let_def get_def model_def assign_model_member_other
      split: sum.splits)

lemma has_in_upd_other: "k' \<noteq> k \<Longrightarrow> has_in k' (m(k := x)) = has_in k' m"
  by (simp add: has_in_def)

lemma upd_eqI: "c1 = c2 \<Longrightarrow> f(a := c1) = f(a := c2)"
  by simp

lemma set_edit_commutes:
  assumes "k' \<noteq> k"
  shows "set_edit k' e (with_snapshot k s)
     = (fst (set_edit k' e s), with_snapshot k (snd (set_edit k' e s)))"
proof -
  let ?c = "cells s (this_cell s)"
  let ?v = "member (map_of (c_model ?c)) k'"
  have tw: "\<And>m a b. m(k \<mapsto> a, k' \<mapsto> b) = m(k' \<mapsto> b, k \<mapsto> a)"
    using assms by (simp add: fun_upd_twist)
  have g: "\<And>nv. member (map_of (c_model (assign_model k' nv ?c))) k = member (map_of (c_model ?c)) k"
    using assms by (simp add: assign_model_member_other)
  show ?thesis
  proof (cases "apply_edit e ?v")
    case (Inl err)
    then show ?thesis
      using assms
      by (cases "has_in k' (c_prev ?c)")
         (simp_all add: set_edit_def Let_def with_snapshot_def get_def model_def
           prevValueByKey_def has_in_upd_other tw)
  next
    case (Inr nv)
    show ?thesis
    proof (cases "has_in k' (c_prev ?c)")
      case True
      with Inr assms show ?thesis
        by (simp add: set_edit_def Let_def with_snapshot_def get_def model_def
           prevValueByKey_def has_in_upd_other g)
    next
      case False
      with Inr assms show ?thesis
        apply (simp add: set_edit_def Let_def with_snapshot_def get_def model_def
           prevValueByKey_def has_in_upd_other g)
        apply (rule store.equality; simp; rule upd_eqI; rule cell.equality; simp add: tw)
        done
    qed
  qed
qed

lemma run_job_commutes:
  assumes "j \<noteq> (this_cell s, k)"
  shows "run_job j (with_snapshot k s) = with_snapshot k (run_job j s)"
proof -
  obtain a k' where j: "j = (a, k')" by (cases j)
  show ?thesis
  proof (cases "a = this_cell s")
    case False
    then have c: "cells (with_snapshot k s) a = cells s a"
      by (simp add: with_snapshot_def)
    show ?thesis
    proof (cases "has_in k' (c_prev (cells s a))")
      case h: False
      then show ?thesis using False c by (simp add: run_job_def j Let_def)
    next
      case h: True
      show ?thesis
      proof (cases "strict_eq (member (map_of (c_model (cells s a))) k') (member (c_prev (cells s a)) k')")
        case True
        with h False c show ?thesis
          apply (simp add: run_job_def j Let_def)
          apply (simp add: with_snapshot_def get_def model_def prevValueByKey_def)
          apply (rule store.equality; simp add: fun_upd_twist)
          done
      next
        case ne: False
        show ?thesis
        proof (cases "truthy_member (assign_flag k' True (emittingByKey s)) k'")
          case t: True
          with ne h False c show ?thesis
            apply (simp add: run_job_def j Let_def emit_def)
            apply (simp add: with_snapshot_def get_def model_def prevValueByKey_def)
            apply (rule store.equality; simp add: fun_upd_twist)
            done
        next
          case t: False
          with ne h False c show ?thesis
            apply (simp add: run_job_def j Let_def emit_def)
            apply (simp add: with_snapshot_def get_def model_def prevValueByKey_def)
            apply (rule store.equality; simp add: fun_upd_twist)
            done
        qed
      qed
    qed
  next
    case True
    with assms j have kk: "k' \<noteq> k" by simp
    let ?c = "cells s (this_cell s)"
    have c: "cells (with_snapshot k s) a = ?c\<lparr>c_prev := (c_prev ?c)(k \<mapsto> get s k)\<rparr>"
      using True by (simp add: with_snapshot_def prevValueByKey_def)
    have m: "member ((c_prev ?c)(k \<mapsto> get s k)) k' = member (c_prev ?c) k'"
      using kk by (simp add: member_def)
    have tw: "\<And>m x. m(k \<mapsto> x, k' := None) = m(k' := None, k \<mapsto> x)"
      using kk by (simp add: fun_upd_twist)
    show ?thesis
    proof (cases "has_in k' (c_prev ?c)")
      case h: False
      then show ?thesis using True c kk by (simp add: run_job_def j Let_def has_in_upd_other)
    next
      case h: True
      show ?thesis
      proof (cases "strict_eq (member (map_of (c_model ?c)) k') (member (c_prev ?c) k')")
        case eq: True
        with h True c kk m show ?thesis
          apply (simp add: run_job_def j Let_def has_in_upd_other)
          apply (simp add: with_snapshot_def get_def model_def prevValueByKey_def)
          apply (rule store.equality; simp; rule upd_eqI; rule cell.equality; simp add: tw)
          done
      next
        case ne: False
        show ?thesis
        proof (cases "truthy_member (assign_flag k' True (emittingByKey s)) k'")
          case t: True
          with ne h True c kk m show ?thesis
            apply (simp add: run_job_def j Let_def has_in_upd_other emit_def)
            apply (simp add: with_snapshot_def get_def model_def prevValueByKey_def)
            apply (rule store.equality; simp; rule upd_eqI; rule cell.equality; simp add: tw)
            done
        next
          case t: False
          with ne h True c kk m show ?thesis
            apply (simp add: run_job_def j Let_def has_in_upd_other emit_def)
            apply (simp add: with_snapshot_def get_def model_def prevValueByKey_def)
            apply (rule store.equality; simp; rule upd_eqI; rule cell.equality; simp add: tw)
            done
        qed
      qed
    qed
  qed
qed

lemma run_job_this_cell [simp]: "this_cell (run_job j s) = this_cell s"
  by (simp add: run_job_def Let_def emit_def)

lemma fold_run_job_commutes:
  "\<forall>j\<in>set js. j \<noteq> (this_cell s, k) \<Longrightarrow>
   fold run_job js (with_snapshot k s) = with_snapshot k (fold run_job js s)"
proof (induction js arbitrary: s)
  case Nil
  then show ?case by simp
next
  case (Cons j js)
  then have "run_job j (with_snapshot k s) = with_snapshot k (run_job j s)"
    by (simp add: run_job_commutes)
  moreover have "fold run_job js (with_snapshot k (run_job j s))
      = with_snapshot k (fold run_job js (run_job j s))"
    by (rule Cons.IH) (use Cons.prems in simp)
  ultimately show ?case by simp
qed

lemma with_snapshot_no_jobs:
  "(with_snapshot k s)\<lparr>jobs := []\<rparr> = with_snapshot k (s\<lparr>jobs := []\<rparr>)"
  by (simp add: with_snapshot_def get_def model_def prevValueByKey_def)

lemma next_turn_commutes:
  "(this_cell s, k) \<notin> set (jobs s) \<Longrightarrow>
   next_turn (with_snapshot k s) = with_snapshot k (next_turn s)"
proof -
  assume n: "(this_cell s, k) \<notin> set (jobs s)"
  have "\<forall>j\<in>set (jobs s). j \<noteq> (this_cell (s\<lparr>jobs := []\<rparr>), k)"
    using n by auto
  from fold_run_job_commutes [OF this] show ?thesis
    by (simp add: next_turn_def with_snapshot_no_jobs)
qed

lemma set_all_Cons:
  "set_all (op # ops) s = set_all ops (snd (set_edit (fst op) (snd op) s))"
  by (simp add: set_all_def)

lemma set_all_this_cell [simp]: "this_cell (set_all ops s) = this_cell s"
  by (induction ops arbitrary: s) (simp_all add: set_all_Cons, simp add: set_all_def)

lemma set_all_commutes:
  "list_all (\<lambda>op. fst op \<noteq> k) ops \<Longrightarrow>
   set_all ops (with_snapshot k s) = with_snapshot k (set_all ops s)"
proof (induction ops arbitrary: s)
  case Nil
  then show ?case by (simp add: set_all_def)
next
  case (Cons op ops)
  then have "fst op \<noteq> k" by simp
  then have "snd (set_edit (fst op) (snd op) (with_snapshot k s))
      = with_snapshot k (snd (set_edit (fst op) (snd op) s))"
    by (simp add: set_edit_commutes)
  with Cons show ?case by (simp add: set_all_Cons)
qed

lemma set_edit_jobs:
  "set (jobs (snd (set_edit k' e s))) \<subseteq> insert (this_cell s, k') (set (jobs s))"
  by (auto simp: set_edit_def Let_def split: sum.splits)

lemma set_all_jobs:
  "list_all (\<lambda>op. fst op \<noteq> k) ops \<Longrightarrow> (this_cell s, k) \<notin> set (jobs s) \<Longrightarrow>
   (this_cell s, k) \<notin> set (jobs (set_all ops s))"
proof (induction ops arbitrary: s)
  case Nil
  then show ?case by (simp add: set_all_def)
next
  case (Cons op ops)
  let ?t = "snd (set_edit (fst op) (snd op) s)"
  have "(this_cell ?t, k) \<notin> set (jobs ?t)"
    using set_edit_jobs [of "fst op" "snd op" s] Cons.prems by auto
  from Cons.IH [OF _ this] Cons.prems show ?case by (simp add: set_all_Cons)
qed

lemma snapshotted_no_job:
  "snapshotted s \<Longrightarrow> \<not> has_in k (prevValueByKey s) \<Longrightarrow> (this_cell s, k) \<notin> set (jobs s)"
  by (auto simp: snapshotted_def list_all_iff)

text \<open>
  Claim C6: when the edit function throws, the promise of that call is rejected with the
  error, the model is as it was before the call (so is the queue, and nothing is
  emitted); a \<^verbatim>\<open>set\<close> for another key made after it returns what it would have returned,
  and whatever calls for other keys follow in the turn, the next turn emits the same
  notifications and leaves the same model as if the failing call had not been made.
\<close>

theorem failing_edit_rejects_alone:
  assumes "f (get s k) = Inl err"
    and "snapshotted s"
    and "list_all (\<lambda>op. fst op \<noteq> k) ops"
  shows "fst (set_edit k (Fn f) s) = Some err
       \<and> model (snd (set_edit k (Fn f) s)) = model s
       \<and> jobs (snd (set_edit k (Fn f) s)) = jobs s
       \<and> emitted (snd (set_edit k (Fn f) s)) = emitted s
       \<and> (k' \<noteq> k \<longrightarrow>
            fst (set_edit k' e' (snd (set_edit k (Fn f) s))) = fst (set_edit k' e' s))
       \<and> emitted (next_turn (set_all ops (snd (set_edit k (Fn f) s))))
            = emitted (next_turn (set_all ops s))
       \<and> model (next_turn (set_all ops (snd (set_edit k (Fn f) s))))
            = model (next_turn (set_all ops s))"
proof (cases "has_in k (prevValueByKey s)")
  case True
  with assms(1) have "set_edit k (Fn f) s = (Some err, s)"
    by (simp add: set_edit_failing apply_edit_def)
  then show ?thesis by simp
next
  case False
  with assms(1) have e: "set_edit k (Fn f) s = (Some err, with_snapshot k s)"
    by (simp add: set_edit_failing apply_edit_def)
  have n: "(this_cell s, k) \<notin> set (jobs s)"
    using assms(2) False by (rule snapshotted_no_job)
  have n': "(this_cell (set_all ops s), k) \<notin> set (jobs (set_all ops s))"
    using set_all_jobs [OF assms(3) n] by simp
  have t: "next_turn (set_all ops (with_snapshot k s)) = with_snapshot k (next_turn (set_all ops s))"
    by (simp add: set_all_commutes [OF assms(3)] next_turn_commutes [OF n'])
  show ?thesis
    by (simp add: e t set_edit_commutes)
qed

text \<open>
  On a store initialized with \<^verbatim>\<open>{counter: 0}\<close>, a throwing edit of \<^verbatim>\<open>counter\<close> is followed by
  \<^verbatim>\<open>set('y', 5)\<close>: the counter stays 0 and the next turn notifies \<^verbatim>\<open>y\<close> with 5.
\<close>

theorem failing_edit_rejects_alone_witness:
  "fst (set_edit (KStr ''counter'') (Fn (raising (Raised (Data (Str ''bad''))))) counter_store)
     = Some (Raised (Data (Str ''bad'')))
   \<and> get (snd (set_edit (KStr ''counter'') (Fn (raising (Raised (Data (Str ''bad''))))) counter_store))
        (KStr ''counter'') = Data (Num 0)
   \<and> emitted (next_turn (set_all [(KStr ''y'', Lit (Num 5))]
        (snd (set_edit (KStr ''counter'') (Fn (raising (Raised (Data (Str ''bad''))))) counter_store))))
     = [(KStr ''y'', Data (Num 5))]"
proof -
  let ?f = "raising (Raised (Data (Str ''bad'')))"
  let ?ops = "[(KStr ''y'', Lit (Num 5))]"
  have h1: "?f (get counter_store (KStr ''counter'')) = Inl (Raised (Data (Str ''bad'')))"
    by (simp add: raising_def)
  have h2: "snapshotted counter_store"
    by (simp add: snapshotted_def eval_defs)
  have h3: "list_all (\<lambda>op. fst op \<noteq> KStr ''counter'') ?ops" by simp
  have g: "get counter_store (KStr ''counter'') = Data (Num 0)"
    by (simp add: eval_defs)
  have r: "emitted (next_turn (set_all ?ops counter_store)) = [(KStr ''y'', Data (Num 5))]"
    by (simp add: eval_defs)
  from failing_edit_rejects_alone [where f = ?f and s = counter_store and k = "KStr ''counter''",
      OF h1 h2 h3] g r show ?thesis
    by (simp add: get_def)
qed

subsection \<open>Coalescing of writes\<close>

lemma snapshotted_new_store: "snapshotted new_store"
  by (simp add: snapshotted_def eval_defs)

lemma snapshotted_set_edit:
  assumes "snapshotted s"
  shows "snapshotted (snd (set_edit k e s))"
proof -
  let ?c = "cells s (this_cell s)"
  have old: "\<And>j x. j \<in> set (jobs s) \<Longrightarrow> fst j = this_cell s \<Longrightarrow>
      has_in (snd j) ((c_prev ?c)(k \<mapsto> x))"
    using assms by (auto simp: snapshotted_def list_all_iff prevValueByKey_def has_in_def)
  have old': "\<And>j. j \<in> set (jobs s) \<Longrightarrow> fst j = this_cell s \<Longrightarrow> has_in (snd j) (c_prev ?c)"
    using assms by (auto simp: snapshotted_def list_all_iff prevValueByKey_def)
  have new: "\<And>x. has_in k ((c_prev ?c)(k \<mapsto> x))"
    by (simp add: has_in_def)
  show ?thesis
    by (cases "apply_edit e (member (map_of (c_model ?c)) k)"; cases "has_in k (c_prev ?c)")
       (auto simp: snapshotted_def list_all_iff set_edit_def Let_def prevValueByKey_def
          old old' new)
qed

lemma snapshotted_next_turn: "snapshotted (next_turn s)"
proof -
  have "jobs (fold run_job js t) = jobs t" for js t
    by (induction js arbitrary: t) (simp_all add: run_job_def Let_def emit_def)
  then show ?thesis by (simp add: snapshotted_def next_turn_def)
qed

lemma run_job_get [simp]: "get (run_job j s) k = get s k"
proof -
  obtain a k' where j: "j = (a, k')" by (cases j)
  show ?thesis
    by (cases "a = this_cell s")
       (simp_all add: run_job_def j Let_def emit_def get_def model_def)
qed

lemma has_in_own: "\<not> inherited k \<Longrightarrow> has_in k m \<longleftrightarrow> m k \<noteq> None"
  by (simp add: has_in_def)

lemma run_job_same_key:
  assumes "\<not> inherited k"
  shows "emitted_for k (run_job (this_cell s, k) s)
           = emitted_for k s @ (case prevValueByKey s k of
                                  None \<Rightarrow> []
                                | Some p \<Rightarrow> if strict_eq (get s k) p then [] else [get s k])"
    and "prevValueByKey (run_job (this_cell s, k) s) k = None"
proof -
  show "emitted_for k (run_job (this_cell s, k) s)
           = emitted_for k s @ (case prevValueByKey s k of
                                  None \<Rightarrow> []
                                | Some p \<Rightarrow> if strict_eq (get s k) p then [] else [get s k])"
    using assms
    by (cases "prevValueByKey s k")
       (simp_all add: run_job_def Let_def has_in_own prevValueByKey_def emitted_for_def
         emit_def truthy_member_def get_def model_def member_def assign_flag_own)
  show "prevValueByKey (run_job (this_cell s, k) s) k = None"
    using assms
    by (cases "prevValueByKey s k")
       (simp_all add: run_job_def Let_def has_in_own prevValueByKey_def emit_def)
qed

lemma run_job_other_key:
  assumes "k' \<noteq> k"
  shows "emitted_for k (run_job (a, k') s) = emitted_for k s"
    and "prevValueByKey (run_job (a, k') s) k = prevValueByKey s k"
proof -
  show "emitted_for k (run_job (a, k') s) = emitted_for k s"
    using assms
    by (simp add: run_job_def Let_def emitted_for_def emit_def truthy_member_def)
  show "prevValueByKey (run_job (a, k') s) k = prevValueByKey s k"
    using assms
    by (cases "a = this_cell s")
       (simp_all add: run_job_def Let_def prevValueByKey_def emit_def)
qed

lemma fold_run_job_emits:
  assumes "\<not> inherited k"
  shows "\<forall>j\<in>set js. fst j = this_cell s \<Longrightarrow>
     emitted_for k (fold run_job js s)
       = emitted_for k s @ (case prevValueByKey s k of
                              None \<Rightarrow> []
                            | Some p \<Rightarrow>
                                if (this_cell s, k) \<in> set js \<and> \<not> strict_eq (get s k) p
                                then [get s k] else [])"
proof (induction js arbitrary: s)
  case Nil
  then show ?case by (simp split: option.splits)
next
  case (Cons j js)
  obtain k' where j: "j = (this_cell s, k')" using Cons.prems by (cases j) simp
  let ?t = "run_job j s"
  have ih: "emitted_for k (fold run_job js ?t)
       = emitted_for k ?t @ (case prevValueByKey ?t k of
                              None \<Rightarrow> []
                            | Some p \<Rightarrow>
                                if (this_cell ?t, k) \<in> set js \<and> \<not> strict_eq (get ?t k) p
                                then [get ?t k] else [])"
    by (rule Cons.IH) (use Cons.prems in simp)
  show ?case
  proof (cases "k' = k")
    case True
    with ih run_job_same_key [OF assms, of s] j show ?thesis
      by (simp split: option.splits)
  next
    case False
    with ih run_job_other_key [OF False, of "this_cell s" s] j show ?thesis
      by (auto split: option.splits)
  qed
qed

lemma fold_run_job_get [simp]: "get (fold run_job js s) k = get s k"
  by (induction js arbitrary: s) simp_all

lemma set_edit_emitted [simp]: "emitted (snd (set_edit k e s)) = emitted s"
  by (simp add: set_edit_def Let_def split: sum.splits)

lemma set_all_emitted [simp]: "emitted (set_all ops s) = emitted s"
  by (induction ops arbitrary: s) (simp add: set_all_def, simp add: set_all_Cons)

lemma set_edit_jobs_cell:
  "\<forall>j\<in>set (jobs s). fst j = this_cell s \<Longrightarrow>
   \<forall>j\<in>set (jobs (snd (set_edit k e s))). fst j = this_cell s"
  by (auto simp: set_edit_def Let_def split: sum.splits)

lemma set_all_jobs_cell:
  "\<forall>j\<in>set (jobs s). fst j = this_cell s \<Longrightarrow>
   \<forall>j\<in>set (jobs (set_all ops s)). fst j = this_cell s"
proof (induction ops arbitrary: s)
  case Nil
  then show ?case by (simp add: set_all_def)
next
  case (Cons op ops)
  let ?t = "snd (set_edit (fst op) (snd op) s)"
  have "\<forall>j\<in>set (jobs ?t). fst j = this_cell ?t"
    using set_edit_jobs_cell [OF Cons.prems] by simp
  from Cons.IH [OF this] show ?case by (simp add: set_all_Cons)
qed

lemma set_edit_remembers:
  assumes "\<not> inherited k" and "remembers k v s"
  shows "remembers k v (snd (set_edit k' e s))"
proof (cases "k' = k")
  case False
  have p: "prevValueByKey (snd (set_edit k' e s)) k = prevValueByKey s k"
    using False by (simp add: set_edit_def Let_def prevValueByKey_def split: sum.splits)
  have j: "(this_cell s, k) \<in> set (jobs (snd (set_edit k' e s))) \<longleftrightarrow> (this_cell s, k) \<in> set (jobs s)"
    using False by (simp add: set_edit_def Let_def split: sum.splits)
  from assms(2) p j set_edit_get_other [OF False, of e s] show ?thesis
    by (simp add: remembers_def)
next
  case True
  let ?c = "cells s (this_cell s)"
  show ?thesis
  proof (cases "prevValueByKey s k")
    case None
    with assms(2) have g: "get s k = v" by (simp add: remembers_def)
    have "prevValueByKey (snd (set_edit k e s)) k = Some v"
      using None g assms(1)
      by (simp add: set_edit_def Let_def prevValueByKey_def has_in_own get_def model_def
          split: sum.splits)
    with True show ?thesis by (simp add: remembers_def)
  next
    case (Some p)
    with assms(2) have pv: "p = v" by (simp add: remembers_def)
    have "prevValueByKey (snd (set_edit k e s)) k = Some v"
      using Some pv assms(1)
      by (simp add: set_edit_def Let_def prevValueByKey_def has_in_own split: sum.splits)
    with True show ?thesis by (simp add: remembers_def)
  qed
qed

lemma set_all_remembers:
  "\<not> inherited k \<Longrightarrow> remembers k v s \<Longrightarrow> remembers k v (set_all ops s)"
proof (induction ops arbitrary: s)
  case Nil
  then show ?case by (simp add: set_all_def)
next
  case (Cons op ops)
  from Cons.IH [OF Cons.prems(1) set_edit_remembers [OF Cons.prems]] show ?case
    by (simp add: set_all_Cons)
qed

lemma turn_start_remembers: "turn_start s \<Longrightarrow> remembers k (get s k) s"
proof -
  assume "turn_start s"
  then have "jobs s = []" "prevValueByKey s k = None \<or> prevValueByKey s k = Some (get s k)"
    by (simp_all add: turn_start_def)
  then show ?thesis by (auto simp: remembers_def)
qed

lemma coalesced:
  assumes "turn_start s" and "\<not> inherited k"
    and "(this_cell s, k) \<in> set (jobs (set_all ops s))"
  shows "emitted_for k (next_turn (set_all ops s))
           = emitted_for k s @ (if strict_eq (get (set_all ops s) k) (get s k) then []
                                else [get (set_all ops s) k])"
proof -
  let ?t = "set_all ops s"
  let ?u = "?t\<lparr>jobs := []\<rparr>"
  have "remembers k (get s k) ?t"
    using assms(1,2) by (simp add: set_all_remembers turn_start_remembers)
  with assms(3) have p: "prevValueByKey ?t k = Some (get s k)"
    by (simp add: remembers_def)
  have c: "\<forall>j\<in>set (jobs ?t). fst j = this_cell ?u"
    using set_all_jobs_cell [of s ops] assms(1) by (simp add: turn_start_def)
  have u: "prevValueByKey ?u k = Some (get s k)" "get ?u k = get ?t k"
    "emitted_for k ?u = emitted_for k s" "this_cell ?u = this_cell s"
    using p by (simp_all add: prevValueByKey_def get_def model_def emitted_for_def)
  from fold_run_job_emits [OF assms(2) c] assms(3) u show ?thesis
    by (simp add: next_turn_def)
qed

text \<open>
  A call of \<^verbatim>\<open>set\<close> never gives the model dictionary its first prototype back: when the
  prototype is the first one after the calls of a turn, it was so all along.
\<close>

lemma set_edit_reparented:
  "reparented s \<Longrightarrow> reparented (snd (set_edit k e s))"
  by (simp add: reparented_def set_edit_def Let_def assign_model_def split: sum.splits)

lemma set_all_reparented: "reparented s \<Longrightarrow> reparented (set_all ops s)"
  by (induction ops arbitrary: s) (simp add: set_all_def, simp add: set_all_Cons set_edit_reparented)

lemma set_edit_not_reparented:
  "k \<noteq> KStr ''__proto__'' \<Longrightarrow> reparented (snd (set_edit k e s)) = reparented s"
  by (simp add: reparented_def set_edit_def Let_def assign_model_def split: sum.splits)

text \<open>
  For a key that is no name of \<^verbatim>\<open>Object.prototype\<close>, while the model dictionary has the
  prototype it was created with: whatever calls of \<^verbatim>\<open>set\<close> a turn makes, for this key and
  for others, with values or with functions, if one of them queued the key then the next
  turn notifies the key's listeners once, with the value the model holds, when that value
  differs from the one the model held when the turn began, and not at all when it does
  not.
\<close>

theorem coalesced_notification:
  assumes "turn_start s" and "\<not> inherited k" and "\<not> reparented (set_all ops s)"
    and "(this_cell s, k) \<in> set (jobs (set_all ops s))"
  shows "emitted_for k (next_turn (set_all ops s))
           = emitted_for k s @ (if strict_eq (get (set_all ops s) k) (get s k) then []
                                else [get (set_all ops s) k])"
  using assms(1,2,4) by (rule coalesced)

lemma set_all_append: "set_all (ops @ [op]) s = snd (set_edit (fst op) (snd op) (set_all ops s))"
  by (simp add: set_all_def)

lemma not_inherited_proto: "\<not> inherited k \<Longrightarrow> k \<noteq> KStr ''__proto__''"
  by (auto simp: Object_prototype_def)

lemma set_edit_literal:
  "\<not> inherited k \<Longrightarrow> get (snd (set_edit k (Lit d) s)) k = Data d"
  "(this_cell s, k) \<in> set (jobs (snd (set_edit k (Lit d) s)))"
  by (simp_all add: set_edit_def Let_def apply_edit_def get_def model_def member_def update_conv'
      assign_model_def not_inherited_proto)

lemma literal_sets_last:
  assumes "vs \<noteq> []" and "\<not> inherited k"
  shows "get (set_all (map (\<lambda>d. (k, Lit d)) vs) s) k = Data (last vs)"
    and "(this_cell s, k) \<in> set (jobs (set_all (map (\<lambda>d. (k, Lit d)) vs) s))"
proof -
  from assms obtain ws w where vs: "vs = ws @ [w]"
    by (metis append_butlast_last_id)
  let ?t = "set_all (map (\<lambda>d. (k, Lit d)) ws) s"
  have e: "set_all (map (\<lambda>d. (k, Lit d)) vs) s = snd (set_edit k (Lit w) ?t)"
    by (simp add: vs set_all_append)
  show "get (set_all (map (\<lambda>d. (k, Lit d)) vs) s) k = Data (last vs)"
    unfolding e by (simp add: set_edit_literal(1) [OF assms(2)] vs)
  from set_edit_literal(2) [of ?t k w]
  show "(this_cell s, k) \<in> set (jobs (set_all (map (\<lambda>d. (k, Lit d)) vs) s))"
    unfolding e by simp
qed

text \<open>
  Claim C1 for a key that is no name of \<^verbatim>\<open>Object.prototype\<close>, on a model dictionary that
  has the prototype it was created with: after \<^verbatim>\<open>set(key, v1); ...; set(key, vN)\<close> the next
  turn notifies once with \<^verbatim>\<open>vN\<close> when \<^verbatim>\<open>vN\<close> differs from the value at the start of the turn,
  and not at all otherwise.
\<close>

theorem sets_of_one_key_notify_once:
  assumes "turn_start s" and "\<not> inherited k" and "\<not> reparented s" and "vs \<noteq> []"
  shows "emitted_for k (next_turn (set_all (map (\<lambda>d. (k, Lit d)) vs) s))
           = emitted_for k s @ (if strict_eq (Data (last vs)) (get s k) then []
                                else [Data (last vs)])"
  using coalesced [OF assms(1,2) literal_sets_last(2) [OF assms(4,2)]]
  by (simp add: literal_sets_last(1) [OF assms(4,2)])

lemma turn_start_new: "turn_start new_store" "turn_start counter_store"
  by (simp_all add: turn_start_def eval_defs)

text \<open>
  A counter in the manner of the documentation: three increments and two decrements in
  one turn give one notification, with 1; three of each give none.
\<close>

theorem coalesced_notification_witness:
  "emitted_for (KStr ''counter'')
     (next_turn (set_all [(KStr ''counter'', increment), (KStr ''counter'', increment),
                          (KStr ''counter'', increment), (KStr ''counter'', decrement),
                          (KStr ''counter'', decrement)] counter_store))
     = [Data (Num 1)]
   \<and> emitted_for (KStr ''counter'')
     (next_turn (set_all [(KStr ''counter'', increment), (KStr ''counter'', increment),
                          (KStr ''counter'', increment), (KStr ''counter'', decrement),
                          (KStr ''counter'', decrement), (KStr ''counter'', decrement)]
                   counter_store))
     = []"
proof -
  let ?k = "KStr ''counter''"
  let ?five = "[(?k, increment), (?k, increment), (?k, increment), (?k, decrement), (?k, decrement)]"
  let ?six = "?five @ [(?k, decrement)]"
  have n: "\<not> inherited ?k" by (simp add: Object_prototype_def)
  have j5: "(this_cell counter_store, ?k) \<in> set (jobs (set_all ?five counter_store))"
    by (simp add: eval_defs)
  have j6: "(this_cell counter_store, ?k) \<in> set (jobs (set_all ?six counter_store))"
    by (simp add: eval_defs)
  have g: "get counter_store ?k = Data (Num 0)" "emitted_for ?k counter_store = []"
    "get (set_all ?five counter_store) ?k = Data (Num 1)"
    "get (set_all ?six counter_store) ?k = Data (Num 0)"
    by (simp_all add: eval_defs)
  have p: "\<not> reparented (set_all ?five counter_store)"
    "\<not> reparented (set_all ?six counter_store)"
    by (simp_all add: eval_defs)
  from coalesced_notification [OF turn_start_new(2) n p(1) j5]
    coalesced_notification [OF turn_start_new(2) n p(2) j6] g
  show ?thesis by (simp add: strict_eq_def)
qed

text \<open>
  \<^verbatim>\<open>set('x', 1); set('x', 2)\<close> on a new store notifies once, with 2;
  \<^verbatim>\<open>set('counter', 7); set('counter', 0)\<close> on a counter at 0 notifies nobody.
\<close>

theorem sets_of_one_key_notify_once_witness:
  "emitted_for (KStr ''x'')
     (next_turn (set_all (map (\<lambda>d. (KStr ''x'', Lit d)) [Num 1, Num 2]) new_store))
     = [Data (Num 2)]
   \<and> emitted_for (KStr ''counter'')
     (next_turn (set_all (map (\<lambda>d. (KStr ''counter'', Lit d)) [Num 7, Num 0]) counter_store))
     = []"
proof -
  have n: "\<not> inherited (KStr ''x'')" "\<not> inherited (KStr ''counter'')"
    by (simp_all add: Object_prototype_def)
  have v: "[Num 1, Num 2] \<noteq> []" "[Num 7, Num 0] \<noteq> []" by simp_all
  have g: "get new_store (KStr ''x'') = Data Undefined" "emitted_for (KStr ''x'') new_store = []"
    "get counter_store (KStr ''counter'') = Data (Num 0)"
    "emitted_for (KStr ''counter'') counter_store = []"
    by (simp_all add: eval_defs)
  have p: "\<not> reparented new_store" "\<not> reparented counter_store"
    by (simp_all add: eval_defs)
  from sets_of_one_key_notify_once [OF turn_start_new(1) n(1) p(1) v(1)]
    sets_of_one_key_notify_once [OF turn_start_new(2) n(2) p(2) v(2)] g
  show ?thesis by (simp add: strict_eq_def)
qed

text \<open>
  Claim C1 fails on the code for a key that \<^verbatim>\<open>Object.prototype\<close> defines: \<^verbatim>\<open>'toString' in
  prevValueByKey\<close> holds on the empty dictionary, so no snapshot is taken and every queued
  callback compares with the inherited function and emits. After \<^verbatim>\<open>set('toString', 1);
  set('toString', 2)\<close> on a new store the listeners are notified twice; and on a store
  initialized with \<^verbatim>\<open>{toString: 5}\<close>, \<^verbatim>\<open>set('toString', 5)\<close> notifies although the value is
  the one the model held.
\<close>

theorem inherited_key_notified_each_time:
  "emitted_for (KStr ''toString'')
     (next_turn (set_all [(KStr ''toString'', Lit (Num 1)), (KStr ''toString'', Lit (Num 2))]
        new_store))
     = [Data (Num 2), Data (Num 2)]
   \<and> get (initialize (Some [(KStr ''toString'', Data (Num 5))]) blank) (KStr ''toString'')
     = Data (Num 5)
   \<and> emitted_for (KStr ''toString'')
     (next_turn (set_all [(KStr ''toString'', Lit (Num 5))]
        (initialize (Some [(KStr ''toString'', Data (Num 5))]) blank)))
     = [Data (Num 5)]"
  by (simp add: eval_defs)

subsection \<open>What a turn keeps\<close>

lemma set_edit_prev_other:
  "k' \<noteq> k \<Longrightarrow> prevValueByKey (snd (set_edit k' e s)) k = prevValueByKey s k"
  by (simp add: set_edit_def Let_def prevValueByKey_def split: sum.splits)

lemma set_edit_job_other:
  "k' \<noteq> k \<Longrightarrow>
   (this_cell s, k) \<in> set (jobs (snd (set_edit k' e s))) \<longleftrightarrow> (this_cell s, k) \<in> set (jobs s)"
  by (simp add: set_edit_def Let_def split: sum.splits)

text \<open>
  What a turn keeps, for every key: the snapshot is none or the value at the start of the
  turn, and the model changes only under a key that has a job queued.
\<close>

lemma set_edit_keeps:
  assumes sn: "snapshotted s"
    and pv: "prevValueByKey s k = None \<or> prevValueByKey s k = Some v"
    and un: "(this_cell s, k) \<notin> set (jobs s) \<longrightarrow> get s k = v"
  shows "(prevValueByKey (snd (set_edit k' e s)) k = None
            \<or> prevValueByKey (snd (set_edit k' e s)) k = Some v)
       \<and> ((this_cell s, k) \<notin> set (jobs (snd (set_edit k' e s)))
            \<longrightarrow> get (snd (set_edit k' e s)) k = v)"
proof (cases "k' = k")
  case False
  with pv un show ?thesis
    by (simp add: set_edit_prev_other set_edit_job_other set_edit_get_other)
next
  case True
  have nj: "\<not> has_in k (prevValueByKey s) \<Longrightarrow> get s k = v"
    using snapshotted_no_job [OF sn, of k] un by simp
  have p: "prevValueByKey (snd (set_edit k e s)) k
      = (if has_in k (prevValueByKey s) then prevValueByKey s k else Some (get s k))"
    by (simp add: set_edit_def Let_def prevValueByKey_def get_def model_def split: sum.splits)
  have "(prevValueByKey (snd (set_edit k e s)) k = None
            \<or> prevValueByKey (snd (set_edit k e s)) k = Some v)"
    using pv nj unfolding p by auto
  moreover have "(this_cell s, k) \<notin> set (jobs (snd (set_edit k e s)))
            \<longrightarrow> get (snd (set_edit k e s)) k = v"
  proof (cases "apply_edit e (get s k)")
    case (Inl err)
    from set_edit_failing [OF Inl] un show ?thesis by simp
  next
    case (Inr nv)
    then have "(this_cell s, k) \<in> set (jobs (snd (set_edit k e s)))"
      by (simp add: set_edit_def Let_def get_def model_def)
    then show ?thesis by simp
  qed
  ultimately show ?thesis unfolding True by blast
qed

lemma set_all_keeps:
  "snapshotted s \<Longrightarrow>
   prevValueByKey s k = None \<or> prevValueByKey s k = Some v \<Longrightarrow>
   (this_cell s, k) \<notin> set (jobs s) \<longrightarrow> get s k = v \<Longrightarrow>
   (prevValueByKey (set_all ops s) k = None \<or> prevValueByKey (set_all ops s) k = Some v)
   \<and> ((this_cell s, k) \<notin> set (jobs (set_all ops s)) \<longrightarrow> get (set_all ops s) k = v)"
proof (induction ops arbitrary: s)
  case Nil
  then show ?case by (simp add: set_all_def)
next
  case (Cons op ops)
  let ?t = "snd (set_edit (fst op) (snd op) s)"
  from set_edit_keeps [OF Cons.prems, of "fst op" "snd op"]
  have a: "prevValueByKey ?t k = None \<or> prevValueByKey ?t k = Some v"
    and b: "(this_cell ?t, k) \<notin> set (jobs ?t) \<longrightarrow> get ?t k = v"
    by simp_all
  from Cons.IH [OF snapshotted_set_edit [OF Cons.prems(1)] a b] show ?case
    by (simp add: set_all_Cons)
qed

lemma fold_run_job_prev:
  "\<forall>j\<in>set js. fst j = this_cell s \<Longrightarrow>
   prevValueByKey (fold run_job js s) k
     = (if (this_cell s, k) \<in> set js then None else prevValueByKey s k)"
proof (induction js arbitrary: s)
  case Nil
  then show ?case by simp
next
  case (Cons j js)
  obtain k' where j: "j = (this_cell s, k')" using Cons.prems by (cases j) simp
  let ?t = "run_job j s"
  have ih: "prevValueByKey (fold run_job js ?t) k
     = (if (this_cell ?t, k) \<in> set js then None else prevValueByKey ?t k)"
    by (rule Cons.IH) (use Cons.prems in simp)
  have same: "prevValueByKey (run_job (this_cell s, k) s) k = None"
    by (cases "has_in k (c_prev (cells s (this_cell s)))")
       (simp_all add: run_job_def Let_def prevValueByKey_def emit_def has_in_def)
  show ?case
  proof (cases "k' = k")
    case True
    with ih same j show ?thesis by simp
  next
    case False
    with ih run_job_other_key(2) [OF False, of "this_cell s" s] j show ?thesis by auto
  qed
qed

lemma fold_run_job_jobs [simp]: "jobs (fold run_job js s) = jobs s"
  by (induction js arbitrary: s) (simp_all add: run_job_def Let_def emit_def)

lemma turn_start_snapshotted: "turn_start s \<Longrightarrow> snapshotted s"
  by (simp add: turn_start_def snapshotted_def)

text \<open>
  A turn that begins with nothing queued and makes calls of \<^verbatim>\<open>set\<close> ends, after the
  queued callbacks have run, as a turn begins.
\<close>

lemma turn_start_next_turn:
  assumes "turn_start s"
  shows "turn_start (next_turn (set_all ops s))"
proof -
  let ?t = "set_all ops s"
  let ?u = "?t\<lparr>jobs := []\<rparr>"
  have c: "\<forall>j\<in>set (jobs ?t). fst j = this_cell ?u"
    using set_all_jobs_cell [of s ops] assms by (simp add: turn_start_def)
  have "prevValueByKey (next_turn ?t) k = None
      \<or> prevValueByKey (next_turn ?t) k = Some (get (next_turn ?t) k)" for k
  proof -
    have a: "prevValueByKey s k = None \<or> prevValueByKey s k = Some (get s k)"
      using assms by (simp add: turn_start_def)
    have b: "(this_cell s, k) \<notin> set (jobs s) \<longrightarrow> get s k = get s k" by simp
    from set_all_keeps [OF turn_start_snapshotted [OF assms] a b, of ops]
    have keep: "prevValueByKey ?t k = None \<or> prevValueByKey ?t k = Some (get s k)"
      "(this_cell s, k) \<notin> set (jobs ?t) \<longrightarrow> get ?t k = get s k"
      by simp_all
    have p: "prevValueByKey (next_turn ?t) k
        = (if (this_cell s, k) \<in> set (jobs ?t) then None else prevValueByKey ?t k)"
      using fold_run_job_prev [OF c, of k]
      by (simp add: next_turn_def prevValueByKey_def)
    have g: "get (next_turn ?t) k = get ?t k"
      by (simp add: next_turn_def) (simp add: get_def model_def)
    from keep p g show ?thesis by auto
  qed
  moreover have "jobs (next_turn ?t) = []"
    by (simp add: next_turn_def)
  ultimately show ?thesis by (simp add: turn_start_def)
qed

lemma snapshotted_initialize:
  "\<forall>j\<in>set (jobs s). fst j \<le> this_cell s \<Longrightarrow> snapshotted (initialize arg s)"
  by (auto simp: snapshotted_def list_all_iff initialize_def Let_def)

subsection \<open>Plain objects\<close>

lemma root_of_last: "root_of p qs = last (p # qs)"
  by (induction qs arbitrary: p) simp_all

text \<open>
  On a prototype chain without a cycle, \<^verbatim>\<open>isPlainObject\<close> accepts exactly the objects whose
  prototype is \<^verbatim>\<open>null\<close> or has itself the prototype \<^verbatim>\<open>null\<close>; it accepts nothing that is not
  an object.
\<close>

lemma isPlainObject_chain:
  "distinct chain \<Longrightarrow> isPlainObject (Data (Obj i chain t ps th)) \<longleftrightarrow> length chain \<le> 1"
  by (cases chain) (auto simp: root_of_last)

lemma isPlainObject_object:
  "isPlainObject v \<Longrightarrow> \<exists>i chain t ps th. v = Data (Obj i chain t ps th)"
  by (cases v rule: isPlainObject.cases) simp_all

end
